theory Spec2Isabelle
  imports Main "HOL-Library.Sublist"
begin

section \<open>Python values: text, exceptions\<close>

text \<open>
  A Python \<open>str\<close> is a sequence of Unicode code points; \<open>len\<close>, slicing and the
  \<open>re\<close> module all count code points, so text is a list of code points here.
\<close>

type_synonym ustr = "int list"

text \<open>The exceptions that the modelled code raises or catches.\<close>

datatype exn = ValueError | OverflowError | IndexError

section \<open>Text operations\<close>

text \<open>An ASCII literal as a Python string.\<close>

definition ascii :: "string \<Rightarrow> ustr" where
  "ascii s = map of_char s"

subsection \<open>Character tables of the Unicode database\<close>

text \<open>
  The code point of the digit zero of every run of ten decimal digits (general category
  Nd, Unicode 14): the characters that \<open>\d\<close> matches and \<open>int\<close> accepts, with their
  values 0 to 9 in order.
\<close>

definition nd_zeros :: "int list" where
  "nd_zeros = [48, 1632, 1776, 1984, 2406, 2534, 2662, 2790, 2918, 3046, 3174, 3302,
     3430, 3558, 3664, 3792, 3872, 4160, 4240, 6112, 6160, 6470, 6608, 6784, 6800, 6992,
     7088, 7232, 7248, 42528, 43216, 43264, 43472, 43504, 43600, 44016, 65296, 66720,
     68912, 69734, 69872, 69942, 70096, 70384, 70736, 70864, 71248, 71360, 71472, 71904,
     72016, 72784, 73040, 73120, 92768, 92864, 93008, 120782, 120792, 120802, 120812,
     120822, 123200, 123632, 125264, 130032]"

definition decimal_value :: "int \<Rightarrow> int option" where
  "decimal_value c = map_option (\<lambda>z. c - z) (find (\<lambda>z. z \<le> c \<and> c < z + 10) nd_zeros)"

definition is_decimal :: "int \<Rightarrow> bool" where
  "is_decimal c \<longleftrightarrow> decimal_value c \<noteq> None"

text \<open>The characters of \<open>str.isspace\<close>, which \<open>str.strip\<close>, \<open>int\<close> and \<open>\s\<close> use.\<close>

definition space_chars :: "int list" where
  "space_chars = [9, 10, 11, 12, 13, 28, 29, 30, 31, 32, 133, 160, 5760, 8192, 8193,
     8194, 8195, 8196, 8197, 8198, 8199, 8200, 8201, 8202, 8232, 8233, 8239, 8287, 12288]"

definition is_space :: "int \<Rightarrow> bool" where
  "is_space c \<longleftrightarrow> c \<in> set space_chars"

subsection \<open>\<open>str.strip\<close>, \<open>str.split\<close>, \<open>str.join\<close>, \<open>str.startswith\<close>, \<open>in\<close>\<close>

definition strip :: "ustr \<Rightarrow> ustr" where
  "strip s = rev (dropWhile is_space (rev (dropWhile is_space s)))"

text \<open>\<open>s.split(sep)\<close> for a separator of one character.\<close>

fun split :: "int \<Rightarrow> ustr \<Rightarrow> ustr list" where
  "split sep [] = [[]]"
| "split sep (c # cs) =
     (if c = sep then [] # split sep cs
      else (case split sep cs of [] \<Rightarrow> [[c]] | p # ps \<Rightarrow> (c # p) # ps))"

fun join :: "ustr \<Rightarrow> ustr list \<Rightarrow> ustr" where
  "join sep [] = []"
| "join sep [x] = x"
| "join sep (x # y # ys) = x @ sep @ join sep (y # ys)"

definition startswith :: "ustr \<Rightarrow> ustr \<Rightarrow> bool" where
  "startswith s p \<longleftrightarrow> take (length p) s = p"

text \<open>\<open>p in s\<close> for strings: \<open>p\<close> occurs in \<open>s\<close> as a contiguous piece.\<close>

fun contains :: "ustr \<Rightarrow> ustr \<Rightarrow> bool" where
  "contains [] p = (p = [])"
| "contains (c # cs) p = (take (length p) (c # cs) = p \<or> contains cs p)"

subsection \<open>\<open>int(s)\<close> and \<open>str(n)\<close>\<close>

text \<open>
  \<open>int\<close> of a string, base ten: surrounding white space is dropped, one sign may lead,
  and the digits (any decimal digits of Unicode) may be separated by single underscores.
  More than 4300 digits are refused. Every refusal is a \<open>ValueError\<close>, here \<open>None\<close>.
\<close>

definition digits_value :: "int list \<Rightarrow> int" where
  "digits_value ds = foldl (\<lambda>acc d. 10 * acc + d) 0 ds"

definition int_unsigned :: "ustr \<Rightarrow> int option" where
  "int_unsigned body =
     (let groups = split 95 body in
      if \<exists>g \<in> set groups. g = [] \<or> (\<exists>c \<in> set g. \<not> is_decimal c) then None
      else if length (concat groups) > 4300 then None
      else Some (digits_value (map (\<lambda>c. the (decimal_value c)) (concat groups))))"

text \<open>
  The white space that \<open>int\<close> drops: that of \<open>str.isspace\<close> without the four ASCII
  separators U+001C to U+001F, which the C parser does not skip.
\<close>

definition int_space :: "int \<Rightarrow> bool" where
  "int_space c \<longleftrightarrow> is_space c \<and> \<not> (28 \<le> c \<and> c \<le> 31)"

definition int_strip :: "ustr \<Rightarrow> ustr" where
  "int_strip s = rev (dropWhile int_space (rev (dropWhile int_space s)))"

definition py_int :: "ustr \<Rightarrow> int option" where
  "py_int s =
     (case int_strip s of
        [] \<Rightarrow> None
      | c # cs \<Rightarrow>
          if c = 45 then map_option uminus (int_unsigned cs)
          else if c = 43 then int_unsigned cs
          else int_unsigned (c # cs))"

text \<open>\<open>str(n)\<close>, and a field padded with zeros to a width, as \<open>{n:02d}\<close> writes it.\<close>

fun nat_digits :: "nat \<Rightarrow> ustr" where
  "nat_digits n = (if n < 10 then [48 + int n] else nat_digits (n div 10) @ [48 + int (n mod 10)])"

definition py_str :: "int \<Rightarrow> ustr" where
  "py_str n = (if n < 0 then 45 # nat_digits (nat (- n)) else nat_digits (nat n))"

definition zero_pad :: "nat \<Rightarrow> int \<Rightarrow> ustr" where
  "zero_pad w n =
     (if n < 0 then 45 # replicate (w - 1 - length (nat_digits (nat (- n)))) 48 @ nat_digits (nat (- n))
      else replicate (w - length (nat_digits (nat n))) 48 @ nat_digits (nat n))"

section \<open>Regular expressions (module \<open>re\<close>)\<close>

text \<open>
  The patterns of this program are sequences of atoms of two kinds: a character class
  repeated between a least and a greatest number of times (greedy: the longest run is
  tried first), and an alternation of fixed-length branches, tried in the order written.
  Each atom carries the number of the capture group it lies in (0: none).
  Matching backtracks as \<open>re\<close> does: the first way to match, in that order of
  preference, is the match.
\<close>

datatype atom =
    Rep "int \<Rightarrow> bool" nat "nat option"
  | Alts "(int \<Rightarrow> bool) list list"

type_synonym pattern = "(atom \<times> nat) list"

definition branch_matches :: "(int \<Rightarrow> bool) list \<Rightarrow> ustr \<Rightarrow> bool" where
  "branch_matches b s \<longleftrightarrow> length b \<le> length s \<and> list_all2 (\<lambda>p c. p c) b (take (length b) s)"

text \<open>The lengths an atom may consume at the head of \<open>s\<close>, most preferred first.\<close>

fun atom_choices :: "atom \<Rightarrow> ustr \<Rightarrow> nat list" where
  "atom_choices (Rep cls lo hi) s =
     (let n = length (takeWhile cls s);
          m = (case hi of None \<Rightarrow> n | Some h \<Rightarrow> min h n)
      in rev [lo ..< Suc m])"
| "atom_choices (Alts bs) s = map length (filter (\<lambda>b. branch_matches b s) bs)"

text \<open>
  Matching a pattern at the head of \<open>s\<close>: the piece consumed by each atom, and the rest
  of the text.
\<close>

function try_atoms :: "pattern \<Rightarrow> ustr \<Rightarrow> (ustr list \<times> ustr) option"
  and try_choices :: "pattern \<Rightarrow> nat list \<Rightarrow> ustr \<Rightarrow> (ustr list \<times> ustr) option" where
  "try_atoms [] s = Some ([], s)"
| "try_atoms (a # as) s = try_choices as (atom_choices (fst a) s) s"
| "try_choices as [] s = None"
| "try_choices as (n # ns) s =
     (case try_atoms as (drop n s) of
        Some (ps, rest) \<Rightarrow> Some (take n s # ps, rest)
      | None \<Rightarrow> try_choices as ns s)"
  by pat_completeness auto
termination
  by (relation "inv_image (less_than <*lex*> less_than)
        (\<lambda>x. case x of Inl (as, s) \<Rightarrow> (2 * length as, 0)
                      | Inr (as, ns, s) \<Rightarrow> (2 * length as + 1, length ns))") auto

text \<open>The text of capture group \<open>k\<close> of a match.\<close>

definition group :: "pattern \<Rightarrow> ustr list \<Rightarrow> nat \<Rightarrow> ustr" where
  "group pat ps k = concat (map snd (filter (\<lambda>(a, p). snd a = k) (zip pat ps)))"

text \<open>\<open>re.search\<close>: the match at the leftmost position that has one.\<close>

fun search :: "pattern \<Rightarrow> ustr \<Rightarrow> ustr list option" where
  "search pat [] = map_option fst (try_atoms pat [])"
| "search pat (c # cs) =
     (case try_atoms pat (c # cs) of
        Some (ps, rest) \<Rightarrow> Some ps
      | None \<Rightarrow> search pat cs)"

text \<open>
  \<open>re.finditer\<close>: the matches from left to right, none overlapping another. The scan
  walks the positions of the text; \<open>k\<close> counts the positions still covered by the last
  match.
\<close>

fun finditer_from :: "pattern \<Rightarrow> nat \<Rightarrow> ustr \<Rightarrow> ustr list list" where
  "finditer_from pat k [] =
     (if k = 0 then (case try_atoms pat [] of Some (ps, rest) \<Rightarrow> [ps] | None \<Rightarrow> []) else [])"
| "finditer_from pat k (c # cs) =
     (if k > 0 then finditer_from pat (k - 1) cs
      else (case try_atoms pat (c # cs) of
              None \<Rightarrow> finditer_from pat 0 cs
            | Some (ps, rest) \<Rightarrow> ps # finditer_from pat (length (concat ps) - 1) cs))"

definition finditer :: "pattern \<Rightarrow> ustr \<Rightarrow> ustr list list" where
  "finditer pat s = finditer_from pat 0 s"

text \<open>Atoms for a literal character, with and without \<open>re.IGNORECASE\<close>, and a literal word.\<close>

definition ascii_lower :: "int \<Rightarrow> int" where
  "ascii_lower c = (if 65 \<le> c \<and> c \<le> 90 then c + 32 else c)"

definition chr_eq :: "int \<Rightarrow> int \<Rightarrow> bool" where
  "chr_eq c x \<longleftrightarrow> x = c"

definition chr_eq_nocase :: "int \<Rightarrow> int \<Rightarrow> bool" where
  "chr_eq_nocase c x \<longleftrightarrow> ascii_lower x = ascii_lower c"

definition in_range :: "int \<Rightarrow> int \<Rightarrow> int \<Rightarrow> bool" where
  "in_range lo hi x \<longleftrightarrow> lo \<le> x \<and> x \<le> hi"

definition lit :: "ustr \<Rightarrow> atom" where
  "lit w = Alts [map chr_eq w]"

definition lit_nocase :: "ustr \<Rightarrow> atom" where
  "lit_nocase w = Alts [map chr_eq_nocase w]"

section \<open>The calendar (modules \<open>calendar\<close> and \<open>datetime\<close>)\<close>

text \<open>\<open>calendar.isleap\<close>, which \<open>DateValidator.is_leap_year\<close> returns unchanged.\<close>

definition isleap :: "int \<Rightarrow> bool" where
  "isleap y \<longleftrightarrow> y mod 4 = 0 \<and> (y mod 100 \<noteq> 0 \<or> y mod 400 = 0)"

definition is_leap_year :: "int \<Rightarrow> bool" where
  "is_leap_year y = isleap y"

text \<open>\<open>calendar.mdays\<close>, indexed by month number (index 0 is unused).\<close>

definition mdays :: "int list" where
  "mdays = [0, 31, 28, 31, 30, 31, 30, 31, 31, 30, 31, 30, 31]"

text \<open>
  The second component of \<open>calendar.monthrange(year, month)\<close>: the number of days of
  the month. A month outside 1..12 raises \<open>IllegalMonthError\<close>, a \<open>ValueError\<close>.
\<close>

definition monthrange_days :: "int \<Rightarrow> int \<Rightarrow> exn + int" where
  "monthrange_days y m =
     (if \<not> (1 \<le> m \<and> m \<le> 12) then Inl ValueError
      else Inr (mdays ! nat m + (if m = 2 \<and> isleap y then 1 else 0)))"

text \<open>
  A naive \<open>datetime\<close>. The constructor \<open>datetime(year, month, day)\<close> of CPython converts
  each argument to a C \<open>int\<close> (\<open>OverflowError\<close> outside 32 bits) and then checks the
  calendar ranges (\<open>ValueError\<close>); the time of day defaults to midnight.
\<close>

record datetime =
  year :: int
  month :: int
  day :: int
  hour :: int
  minute :: int
  second :: int
  microsecond :: int

definition fits_c_int :: "int \<Rightarrow> bool" where
  "fits_c_int n \<longleftrightarrow> - 2147483648 \<le> n \<and> n \<le> 2147483647"

definition datetime_new :: "int \<Rightarrow> int \<Rightarrow> int \<Rightarrow> exn + datetime" where
  "datetime_new y m d =
     (if \<not> (fits_c_int y \<and> fits_c_int m \<and> fits_c_int d) then Inl OverflowError
      else if \<not> (1 \<le> y \<and> y \<le> 9999) then Inl ValueError
      else if \<not> (1 \<le> m \<and> m \<le> 12) then Inl ValueError
      else (case monthrange_days y m of
              Inl e \<Rightarrow> Inl e
            | Inr dim \<Rightarrow>
                if \<not> (1 \<le> d \<and> d \<le> dim) then Inl ValueError
                else Inr \<lparr>year = y, month = m, day = d, hour = 0, minute = 0,
                          second = 0, microsecond = 0\<rparr>))"

section \<open>\<open>DateValidator\<close>\<close>

text \<open>
  \<open>is_valid_date\<close>: the month range, the day against \<open>monthrange\<close>, and then the
  construction of the date ``to be absolutely sure'', whose \<open>ValueError\<close> and
  \<open>OverflowError\<close> are caught and answered with \<open>False\<close>.
\<close>

definition is_valid_date :: "int \<Rightarrow> int \<Rightarrow> int \<Rightarrow> bool" where
  "is_valid_date d m y =
     (if \<not> (1 \<le> m \<and> m \<le> 12) then False
      else (case monthrange_days y m of
              Inl e \<Rightarrow> False
            | Inr max_day \<Rightarrow>
                if \<not> (1 \<le> d \<and> d \<le> max_day) then False
                else (case datetime_new y m d of Inr dt \<Rightarrow> True | Inl e \<Rightarrow> False)))"

text \<open>
  Comparison of naive datetimes is the comparison of their fields in order; the
  difference of two datetimes is a \<open>timedelta\<close>, whose \<open>days\<close> is the floor of the
  difference in days. \<open>toordinal\<close> numbers the days from 1 January of year 1.
\<close>

definition dt_fields :: "datetime \<Rightarrow> int list" where
  "dt_fields t = [year t, month t, day t, hour t, minute t, second t, microsecond t]"

fun lex_less :: "int list \<Rightarrow> int list \<Rightarrow> bool" where
  "lex_less (x # xs) (y # ys) = (x < y \<or> (x = y \<and> lex_less xs ys))"
| "lex_less [] (y # ys) = True"
| "lex_less xs [] = False"

definition dt_less :: "datetime \<Rightarrow> datetime \<Rightarrow> bool" where
  "dt_less a b = lex_less (dt_fields a) (dt_fields b)"

definition dt_le :: "datetime \<Rightarrow> datetime \<Rightarrow> bool" where
  "dt_le a b \<longleftrightarrow> dt_less a b \<or> dt_fields a = dt_fields b"

definition days_before_year :: "int \<Rightarrow> int" where
  "days_before_year y = (y - 1) * 365 + (y - 1) div 4 - (y - 1) div 100 + (y - 1) div 400"

definition days_before_month_tab :: "int list" where
  "days_before_month_tab = [0, 0, 31, 59, 90, 120, 151, 181, 212, 243, 273, 304, 334]"

definition days_before_month :: "int \<Rightarrow> int \<Rightarrow> int" where
  "days_before_month y m = days_before_month_tab ! nat m + (if m > 2 \<and> isleap y then 1 else 0)"

definition toordinal :: "datetime \<Rightarrow> int" where
  "toordinal t = days_before_year (year t) + days_before_month (year t) (month t) + day t"

definition total_microseconds :: "datetime \<Rightarrow> int" where
  "total_microseconds t =
     toordinal t * 86400000000
       + ((hour t * 60 + minute t) * 60 + second t) * 1000000 + microsecond t"

definition timedelta_days :: "datetime \<Rightarrow> datetime \<Rightarrow> int" where
  "timedelta_days a b = (total_microseconds a - total_microseconds b) div 86400000000"

text \<open>
  \<open>strftime('%d/%m/%Y')\<close>: day and month in two digits, the year as the C library
  prints it (glibc: without padding).
\<close>

definition strftime_dmy :: "datetime \<Rightarrow> ustr" where
  "strftime_dmy t = zero_pad 2 (day t) @ [47] @ zero_pad 2 (month t) @ [47] @ py_str (year t)"

subsection \<open>\<open>datetime.strptime\<close>\<close>

text \<open>
  \<open>strptime\<close> turns the format into a regular expression, directive by directive, and
  matches it at the start of the text; text left over, a format that does not match, an
  unknown directive and an impossible date are each a \<open>ValueError\<close>. The formats of
  this program use the directives \<open>%d\<close>, \<open>%m\<close> and \<open>%Y\<close>, with the library's expressions
  \<open>3[0-1]|[1-2]\d|0[1-9]|[1-9]| [1-9]\<close>, \<open>1[0-2]|0[1-9]|[1-9]\<close> and \<open>\d\d\d\d\<close>, and
  \<open>%-\<close> and \<open>%#\<close>, which are no directives of \<open>strptime\<close>. The day is group 1, the month
  group 2 and the year group 3.
\<close>

definition re_d :: atom where
  "re_d = Alts [[chr_eq 51, in_range 48 49], [in_range 49 50, is_decimal],
                [chr_eq 48, in_range 49 57], [in_range 49 57], [chr_eq 32, in_range 49 57]]"

definition re_m :: atom where
  "re_m = Alts [[chr_eq 49, in_range 48 50], [chr_eq 48, in_range 49 57], [in_range 49 57]]"

definition re_Y :: atom where
  "re_Y = Alts [[is_decimal, is_decimal, is_decimal, is_decimal]]"

definition directive :: "int \<Rightarrow> (atom \<times> nat) option" where
  "directive c =
     (if c = 100 then Some (re_d, 1)
      else if c = 109 then Some (re_m, 2)
      else if c = 89 then Some (re_Y, 3)
      else None)"

fun format_pattern :: "ustr \<Rightarrow> pattern option" where
  "format_pattern [] = Some []"
| "format_pattern [c] =
     (if c = 37 then None
      else Some [(if is_space c then Rep is_space 1 None else lit [c], 0)])"
| "format_pattern (c # d # ds) =
     (if c = 37 then
        (case directive d of
           None \<Rightarrow> None
         | Some a \<Rightarrow> map_option ((#) a) (format_pattern ds))
      else map_option ((#) (if is_space c then Rep is_space 1 None else lit [c], 0))
             (format_pattern (d # ds)))"

definition strptime :: "ustr \<Rightarrow> ustr \<Rightarrow> exn + datetime" where
  "strptime s fmt =
     (case format_pattern fmt of
        None \<Rightarrow> Inl ValueError
      | Some pat \<Rightarrow>
          (case try_atoms pat s of
             None \<Rightarrow> Inl ValueError
           | Some (ps, rest) \<Rightarrow>
               if rest \<noteq> [] then Inl ValueError
               else (case py_int (group pat ps 3) of
                       None \<Rightarrow> Inl ValueError
                     | Some y \<Rightarrow>
                         (case py_int (group pat ps 2) of
                            None \<Rightarrow> Inl ValueError
                          | Some m \<Rightarrow>
                              (case py_int (group pat ps 1) of
                                 None \<Rightarrow> Inl ValueError
                               | Some d \<Rightarrow> datetime_new y m d)))))"

subsection \<open>\<open>parse_date\<close>\<close>

definition DATE_FORMATS :: "ustr list" where
  "DATE_FORMATS = [ascii ''%d/%m/%Y'', ascii ''%d-%m-%Y'', ascii ''%Y/%m/%d'',
     ascii ''%Y-%m-%d'', ascii ''%d.%m.%Y'', ascii ''%-d/%-m/%Y'', ascii ''%#d/%#m/%Y'']"

text \<open>The table \<open>ARABIC_MONTHS\<close>: month names, as code points, and month numbers.\<close>

definition ARABIC_MONTHS :: "(ustr \<times> int) list" where
  "ARABIC_MONTHS =
    [([1610, 1606, 1575, 1610, 1585], 1),
     ([1610, 1606, 1575, 1610, 1512], 1),
     ([1601, 1576, 1585, 1575, 1610, 1585], 2),
     ([1588, 1576, 1575, 1591], 2),
     ([1605, 1575, 1585, 1587], 3),
     ([1570, 1584, 1575, 1585], 3),
     ([1571, 1576, 1585, 1610, 1604], 4),
     ([1606, 1610, 1587, 1575, 1606], 4),
     ([1575, 1576, 1585, 1610, 1604], 4),
     ([1605, 1575, 1610, 1608], 5),
     ([1571, 1610, 1575, 1585], 5),
     ([1605, 1575, 1610], 5),
     ([1610, 1608, 1606, 1610, 1608], 6),
     ([1581, 1586, 1610, 1585, 1575, 1606], 6),
     ([1610, 1608, 1606, 1610, 1607], 6),
     ([1610, 1608, 1604, 1610, 1608], 7),
     ([1578, 1605, 1608, 1586], 7),
     ([1610, 1608, 1604, 1610, 1607], 7),
     ([1571, 1594, 1587, 1591, 1587], 8),
     ([1570, 1576], 8),
     ([1575, 1594, 1587, 1591, 1587], 8),
     ([1587, 1576, 1578, 1605, 1576, 1585], 9),
     ([1571, 1610, 1604, 1608, 1604], 9),
     ([1571, 1603, 1578, 1608, 1576, 1585], 10),
     ([1578, 1588, 1585, 1610, 1606, 32, 1575, 1604, 1571, 1608, 1604], 10),
     ([1575, 1603, 1578, 1608, 1576, 1585], 10),
     ([1606, 1608, 1601, 1605, 1576, 1585], 11),
     ([1578, 1588, 1585, 1610, 1606, 32, 1575, 1604, 1579, 1575, 1606, 1610], 11),
     ([1583, 1610, 1587, 1605, 1576, 1585], 12),
     ([1603, 1575, 1606, 1608, 1606, 32, 1575, 1604, 1571, 1608, 1604], 12),
     ([1583, 1587, 1605, 1576, 1585], 12)]"

text \<open>The letters \<open>[\<dots>]\<close> of the Arabic pattern: the range U+0623 to U+064A.\<close>

definition is_arabic_letter :: "int \<Rightarrow> bool" where
  "is_arabic_letter c \<longleftrightarrow> 1571 \<le> c \<and> c \<le> 1610"

text \<open>\<open>(\d{1,2})\s+([\<dots>]+)\s+(\d{4})\<close>\<close>

definition arabic_pattern :: pattern where
  "arabic_pattern = [(Rep is_decimal 1 (Some 2), 1), (Rep is_space 1 None, 0),
     (Rep is_arabic_letter 1 None, 2), (Rep is_space 1 None, 0), (Rep is_decimal 4 (Some 4), 3)]"

text \<open>
  The Arabic form: when the pattern is found and the month name is in the table, the
  date is built; a \<open>ValueError\<close> there is passed over. \<open>None\<close>: go on to the formats.
\<close>

definition parse_arabic :: "ustr \<Rightarrow> (exn + datetime) option" where
  "parse_arabic s =
     (case search arabic_pattern s of
        None \<Rightarrow> None
      | Some ps \<Rightarrow>
          (case map_of ARABIC_MONTHS (group arabic_pattern ps 2) of
             None \<Rightarrow> None
           | Some m \<Rightarrow>
               if m = 0 then None
               else (case py_int (group arabic_pattern ps 3) of
                       None \<Rightarrow> None
                     | Some y \<Rightarrow>
                         (case py_int (group arabic_pattern ps 1) of
                            None \<Rightarrow> None
                          | Some d \<Rightarrow>
                              (case datetime_new y m d of
                                 Inr t \<Rightarrow> Some (Inr t)
                               | Inl e \<Rightarrow> if e = ValueError then None else Some (Inl e))))))"

text \<open>The standard formats in order: the first that parses wins, a \<open>ValueError\<close> goes on.\<close>

fun try_formats :: "ustr list \<Rightarrow> ustr \<Rightarrow> (exn + datetime) option" where
  "try_formats [] s = None"
| "try_formats (f # fs) s =
     (case strptime s f of
        Inr t \<Rightarrow> Some (Inr t)
      | Inl e \<Rightarrow> if e = ValueError then try_formats fs s else Some (Inl e))"

text \<open>
  The manual fallback. The three \<open>int\<close> conversions and the construction of the date
  are inside one \<open>try\<close> around the whole loop: a \<open>ValueError\<close> or \<open>IndexError\<close> ends the
  loop with no date, any other exception leaves \<open>parse_date\<close>.
\<close>

definition build_date :: "ustr \<Rightarrow> ustr \<Rightarrow> ustr \<Rightarrow> (int \<Rightarrow> int \<Rightarrow> int \<Rightarrow> exn + datetime)
    \<Rightarrow> exn + datetime option" where
  "build_date p0 p1 p2 mk =
     (case py_int p0 of
        None \<Rightarrow> Inr None
      | Some a \<Rightarrow>
          (case py_int p1 of
             None \<Rightarrow> Inr None
           | Some b \<Rightarrow>
               (case py_int p2 of
                  None \<Rightarrow> Inr None
                | Some c \<Rightarrow>
                    (case mk a b c of
                       Inr t \<Rightarrow> Inr (Some t)
                     | Inl e \<Rightarrow>
                         if e = ValueError \<or> e = IndexError then Inr None else Inl e))))"

fun manual_parse :: "int list \<Rightarrow> ustr \<Rightarrow> exn + datetime option" where
  "manual_parse [] s = Inr None"
| "manual_parse (sep # seps) s =
     (if sep \<in> set s then
        (let parts = split sep s in
         if length parts = 3 then
           (if length (parts ! 2) = 4 then
              build_date (parts ! 0) (parts ! 1) (parts ! 2) (\<lambda>d m y. datetime_new y m d)
            else if length (parts ! 0) = 4 then
              build_date (parts ! 0) (parts ! 1) (parts ! 2) (\<lambda>y m d. datetime_new y m d)
            else manual_parse seps s)
         else manual_parse seps s)
      else manual_parse seps s)"

definition parse_date :: "ustr \<Rightarrow> exn + datetime option" where
  "parse_date date_str =
     (if date_str = [] then Inr None
      else
        (let s = strip date_str in
         case parse_arabic s of
           Some (Inr t) \<Rightarrow> Inr (Some t)
         | Some (Inl e) \<Rightarrow> Inl e
         | None \<Rightarrow>
             (case try_formats DATE_FORMATS s of
                Some (Inr t) \<Rightarrow> Inr (Some t)
              | Some (Inl e) \<Rightarrow> Inl e
              | None \<Rightarrow> manual_parse [47, 45, 46] s)))"

subsection \<open>\<open>validate_date\<close> and \<open>validate_date_range\<close>\<close>

definition validate_date :: "ustr \<Rightarrow> exn + (bool \<times> ustr \<times> datetime option)" where
  "validate_date date_str =
     (case parse_date date_str of
        Inl e \<Rightarrow> Inl e
      | Inr None \<Rightarrow> Inr (False, ascii ''Invalid date format: '' @ date_str, None)
      | Inr (Some parsed) \<Rightarrow>
          if \<not> is_valid_date (day parsed) (month parsed) (year parsed) then
            Inr (False, ascii ''Invalid date: '' @ date_str
                   @ ascii '' (this date does not exist in the calendar)'', None)
          else if \<not> (1900 \<le> year parsed \<and> year parsed \<le> 2100) then
            Inr (False, ascii ''Year out of reasonable range: '' @ py_str (year parsed), None)
          else Inr (True, [], Some parsed))"

text \<open>
  \<open>reference_date\<close> is the validator's ``now'', fixed when the validator is made.
  A date that validated is never absent, so the comparisons below always have dates.
\<close>

definition validate_date_range ::
    "datetime \<Rightarrow> ustr \<Rightarrow> ustr \<Rightarrow> bool \<Rightarrow> int \<Rightarrow> int \<Rightarrow> exn + (bool \<times> ustr)" where
  "validate_date_range reference_date start_date_str end_date_str allow_past_start
      min_duration_days max_duration_days =
     (case validate_date start_date_str of
        Inl e \<Rightarrow> Inl e
      | Inr (start_valid, start_error, start_opt) \<Rightarrow>
          if \<not> start_valid then Inr (False, ascii ''Start date error: '' @ start_error)
          else
            (case validate_date end_date_str of
               Inl e \<Rightarrow> Inl e
             | Inr (end_valid, end_error, end_opt) \<Rightarrow>
                 if \<not> end_valid then Inr (False, ascii ''End date error: '' @ end_error)
                 else
                   (case (start_opt, end_opt) of
                      (Some start_date, Some end_date) \<Rightarrow>
                        if \<not> allow_past_start \<and> dt_less start_date reference_date then
                          Inr (False, ascii ''Start date '' @ start_date_str
                                 @ ascii '' is in the past. ''
                                 @ ascii ''Lease contracts should start on or after today (''
                                 @ strftime_dmy reference_date @ ascii '')'')
                        else if dt_le end_date start_date then
                          Inr (False, ascii ''End date '' @ end_date_str
                                 @ ascii '' must be after start date '' @ start_date_str
                                 @ ascii ''. '' @ ascii ''The lease period goes backward in time.'')
                        else
                          (let duration = timedelta_days end_date start_date in
                           if duration < min_duration_days then
                             Inr (False, ascii ''Lease duration too short: '' @ py_str duration
                                    @ ascii '' days. '' @ ascii ''Minimum duration is ''
                                    @ py_str min_duration_days @ ascii '' days.'')
                           else if duration > max_duration_days then
                             Inr (False, ascii ''Lease duration too long: '' @ py_str duration
                                    @ ascii '' days ('' @ py_str (duration div 365)
                                    @ ascii '' years). '' @ ascii ''Maximum duration is ''
                                    @ py_str (max_duration_days div 365) @ ascii '' years.'')
                           else Inr (True, []))
                    | _ \<Rightarrow> Inl ValueError)))"

subsection \<open>\<open>extract_and_validate_dates\<close>\<close>

text \<open>A finding: the matched text, the parsed date, the verdict and its error text.\<close>

record finding =
  f_text :: ustr
  f_parsed :: "datetime option"
  f_valid :: bool
  f_error :: ustr

definition is_date_sep :: "int \<Rightarrow> bool" where
  "is_date_sep c \<longleftrightarrow> c = 47 \<or> c = 46 \<or> c = 45"

text \<open>\<open>\d{1,2}[/.-]\d{1,2}[/.-]\d{4}\<close>, in capture group \<open>g\<close>.\<close>

definition dmy_atoms :: "nat \<Rightarrow> pattern" where
  "dmy_atoms g = [(Rep is_decimal 1 (Some 2), g), (Rep is_date_sep 1 (Some 1), g),
     (Rep is_decimal 1 (Some 2), g), (Rep is_date_sep 1 (Some 1), g),
     (Rep is_decimal 4 (Some 4), g)]"

text \<open>\<open>\d{4}[/.-]\d{1,2}[/.-]\d{1,2}\<close>\<close>

definition ymd_atoms :: pattern where
  "ymd_atoms = [(Rep is_decimal 4 (Some 4), 0), (Rep is_date_sep 1 (Some 1), 0),
     (Rep is_decimal 1 (Some 2), 0), (Rep is_date_sep 1 (Some 1), 0),
     (Rep is_decimal 1 (Some 2), 0)]"

text \<open>\<open>\d{1,2}\s+[\<dots>]+\s+\d{4}\<close>, the Arabic form without groups.\<close>

definition arabic_date_atoms :: pattern where
  "arabic_date_atoms = [(Rep is_decimal 1 (Some 2), 0), (Rep is_space 1 None, 0),
     (Rep is_arabic_letter 1 None, 0), (Rep is_space 1 None, 0), (Rep is_decimal 4 (Some 4), 0)]"

definition date_patterns :: "pattern list" where
  "date_patterns = [dmy_atoms 0, ymd_atoms, arabic_date_atoms]"

text \<open>
  The range phrases, compiled with \<open>re.IGNORECASE\<close>. The Arabic one is
  \<open>min\<close> X \<open>ila | hatta | ala\<close> Y (U+0645 U+0646; U+0625 U+0644 U+0649, U+062D U+062A U+0649,
  U+0627 U+0644 U+0649); the others are \<open>from\s+X\s+to\s+Y\<close>, \<open>From[:\s]+X\s+to\s+Y\<close> and
  \<open>Term[:\s]+from\s+X\s+to\s+Y\<close>. X is group 1 and Y group 2.
\<close>

definition spaces1 :: "atom \<times> nat" where
  "spaces1 = (Rep is_space 1 None, 0)"

definition colon_or_space :: "int \<Rightarrow> bool" where
  "colon_or_space c \<longleftrightarrow> c = 58 \<or> is_space c"

definition range_patterns :: "pattern list" where
  "range_patterns =
    [[(lit_nocase [1605, 1606], 0), spaces1] @ dmy_atoms 1
       @ [spaces1, (Alts [map chr_eq_nocase [1573, 1604, 1609],
                          map chr_eq_nocase [1581, 1578, 1609],
                          map chr_eq_nocase [1575, 1604, 1609]], 0), spaces1] @ dmy_atoms 2,
     [(lit_nocase (ascii ''from''), 0), spaces1] @ dmy_atoms 1
       @ [spaces1, (lit_nocase (ascii ''to''), 0), spaces1] @ dmy_atoms 2,
     [(lit_nocase (ascii ''From''), 0), (Rep colon_or_space 1 None, 0)] @ dmy_atoms 1
       @ [spaces1, (lit_nocase (ascii ''to''), 0), spaces1] @ dmy_atoms 2,
     [(lit_nocase (ascii ''Term''), 0), (Rep colon_or_space 1 None, 0),
      (lit_nocase (ascii ''from''), 0), spaces1] @ dmy_atoms 1
       @ [spaces1, (lit_nocase (ascii ''to''), 0), spaces1] @ dmy_atoms 2]"

text \<open>Running a check over a list in order; the first exception ends the run.\<close>

fun mapM_exn :: "('a \<Rightarrow> exn + 'b) \<Rightarrow> 'a list \<Rightarrow> exn + 'b list" where
  "mapM_exn f [] = Inr []"
| "mapM_exn f (x # xs) =
     (case f x of
        Inl e \<Rightarrow> Inl e
      | Inr y \<Rightarrow> (case mapM_exn f xs of Inl e \<Rightarrow> Inl e | Inr ys \<Rightarrow> Inr (y # ys)))"

text \<open>The date-like pieces of a text: for each pattern in turn, its matches in order.\<close>

definition date_matches :: "ustr \<Rightarrow> ustr list" where
  "date_matches txt = concat (map (\<lambda>pat. map concat (finditer pat txt)) date_patterns)"

text \<open>The range phrases of a text, as pairs of start and end text.\<close>

definition range_matches :: "ustr \<Rightarrow> (ustr \<times> ustr) list" where
  "range_matches txt =
     concat (map (\<lambda>pat. map (\<lambda>ps. (group pat ps 1, group pat ps 2)) (finditer pat txt))
               range_patterns)"

definition mk_finding :: "ustr \<Rightarrow> bool \<times> ustr \<times> datetime option \<Rightarrow> finding" where
  "mk_finding s r = (case r of (v, e, p) \<Rightarrow> \<lparr>f_text = s, f_parsed = p, f_valid = v, f_error = e\<rparr>)"

definition date_error_entry :: "finding \<Rightarrow> ustr" where
  "date_error_entry f = ascii ''Invalid date '' @ [39] @ f_text f @ [39] @ ascii '': '' @ f_error f"

definition extract_and_validate_dates ::
    "datetime \<Rightarrow> ustr \<Rightarrow> bool \<Rightarrow> exn + (bool \<times> ustr \<times> finding list)" where
  "extract_and_validate_dates reference_date txt allow_past_start =
     (case mapM_exn validate_date (date_matches txt) of
        Inl e \<Rightarrow> Inl e
      | Inr rs \<Rightarrow>
          (let found_dates = map2 mk_finding (date_matches txt) rs;
               errors = map date_error_entry (filter (\<lambda>f. \<not> f_valid f) found_dates)
           in if errors \<noteq> [] then Inr (False, join (ascii ''; '') errors, found_dates)
              else
                (case mapM_exn (\<lambda>(s, e). validate_date_range reference_date s e
                                   allow_past_start 1 36500) (range_matches txt) of
                   Inl e \<Rightarrow> Inl e
                 | Inr rr \<Rightarrow>
                     (let errors = map snd (filter (\<lambda>r. \<not> fst r) rr)
                      in if errors \<noteq> [] then Inr (False, join (ascii ''; '') errors, found_dates)
                         else Inr (True, [], found_dates)))))"

subsection \<open>\<open>get_validation_suggestions\<close>\<close>

text \<open>The search for the next leap year, at most up to \<open>limit\<close>.\<close>

function next_leap_from :: "int \<Rightarrow> int \<Rightarrow> int" where
  "next_leap_from limit n =
     (if \<not> is_leap_year n \<and> n < limit then next_leap_from limit (n + 1) else n)"
  by pat_completeness auto
termination
  by (relation "measure (\<lambda>(limit, n). nat (limit - n))") auto

text \<open>
  \<open>reference_date - timedelta(days=365)\<close> raises \<open>OverflowError\<close> when it would leave
  the calendar; otherwise the comparison with it is a comparison of instants.
\<close>

definition get_validation_suggestions :: "datetime \<Rightarrow> ustr \<Rightarrow> exn + ustr list" where
  "get_validation_suggestions reference_date date_str =
     (case parse_date date_str of
        Inl e \<Rightarrow> Inl e
      | Inr None \<Rightarrow> Inr [ascii ''Use format DD/MM/YYYY (e.g., 23/02/2026)'']
      | Inr (Some parsed) \<Rightarrow>
          (let s1 =
                 (if month parsed = 2 \<and> day parsed = 29 \<and> \<not> is_leap_year (year parsed) then
                    [ascii ''February 29 does not exist in '' @ py_str (year parsed)
                       @ ascii '' (not a leap year)'',
                     ascii ''Try: 28/02/'' @ py_str (year parsed) @ ascii '' or 01/03/''
                       @ py_str (year parsed)]
                    @ (let next_leap = next_leap_from (year parsed + 10) (year parsed + 1)
                       in if next_leap < year parsed + 10
                          then [ascii ''Or use a leap year: 29/02/'' @ py_str next_leap]
                          else [])
                  else [])
           in case monthrange_days (year parsed) (month parsed) of
                Inl e \<Rightarrow> Inl e
              | Inr max_day \<Rightarrow>
                  (let s2 =
                         (if day parsed > max_day then
                            [ascii ''Day '' @ py_str (day parsed) @ ascii '' is invalid for month ''
                               @ py_str (month parsed) @ [47] @ py_str (year parsed) @ ascii ''. ''
                               @ ascii ''Maximum day is '' @ py_str max_day,
                             ascii ''Try: '' @ py_str max_day @ [47] @ zero_pad 2 (month parsed)
                               @ [47] @ py_str (year parsed)]
                          else [])
                   in if toordinal reference_date - 365 < 1 then Inl OverflowError
                      else
                        Inr (s1 @ s2
                             @ (if total_microseconds parsed
                                     < total_microseconds reference_date - 365 * 86400000000
                                then [ascii ''Date is in the past ('' @ strftime_dmy parsed
                                        @ ascii ''). ''
                                        @ ascii ''Consider using a current or future date.'']
                                else [])))))"

section \<open>\<open>LLMClient\<close>\<close>

subsection \<open>Messages\<close>

text \<open>
  The texts that the client returns, as code points. Names ending in \<open>_ar\<close> are the
  Arabic texts, \<open>_en\<close> the English ones; \<open>_head\<close> and \<open>_tail\<close> are the parts of a formatted
  text before and after the inserted error.
\<close>

definition warning_sign :: ustr where
  "warning_sign =
     [9888, 65039]"

definition error_token_ar :: ustr where
  "error_token_ar =
     [1582, 1591, 1571]"

definition alert_ar_head :: ustr where
  "alert_ar_head =
     [9888, 65039, 32, 1582, 1591, 1571, 32, 1601, 1610, 32, 1575, 1604, 1578, 1575, 1585,
     1610, 1582, 58, 10, 10]"

definition alert_ar_tail :: ustr where
  "alert_ar_tail =
     [10, 10, 1575, 1604, 1585, 1580, 1575, 1569, 32, 1578, 1589, 1581, 1610, 1581, 32,
     1575, 1604, 1578, 1575, 1585, 1610, 1582, 32, 1608, 1575, 1604, 1605, 1581, 1575,
     1608, 1604, 1577, 32, 1605, 1585, 1577, 32, 1571, 1582, 1585, 1609, 46]"

definition alert_en_head :: ustr where
  "alert_en_head =
     [9888, 65039] @ ascii '' Date Validation Error:'' @ [10, 10]"

definition alert_en_tail :: ustr where
  "alert_en_tail =
     [10, 10] @ ascii ''Please correct the date and try again.''"

definition gen_failed_ar :: ustr where
  "gen_failed_ar =
     [1593, 1584, 1585, 1575, 1611, 1548, 32, 1581, 1583, 1579, 32, 1582, 1591, 1571, 32,
     1601, 1610, 32, 1573, 1606, 1588, 1575, 1569, 32, 1575, 1604, 1593, 1602, 1583, 46]"

definition gen_failed_en :: ustr where
  "gen_failed_en =
     ascii ''Sorry, error generating contract.''"

definition gen_bad_dates_ar_head :: ustr where
  "gen_bad_dates_ar_head =
     [9888, 65039, 32, 1575, 1604, 1593, 1602, 1583, 32, 1575, 1604, 1605, 1615, 1606,
     1588, 1571, 32, 1610, 1581, 1578, 1608, 1610, 32, 1593, 1604, 1609, 32, 1578, 1608,
     1575, 1585, 1610, 1582, 32, 1594, 1610, 1585, 32, 1589, 1581, 1610, 1581, 1577, 58,
     10, 10]"

definition gen_bad_dates_ar_tail :: ustr where
  "gen_bad_dates_ar_tail =
     [10, 10, 1575, 1604, 1585, 1580, 1575, 1569, 32, 1575, 1604, 1605, 1581, 1575, 1608,
     1604, 1577, 32, 1605, 1585, 1577, 32, 1571, 1582, 1585, 1609, 46]"

definition gen_bad_dates_en_head :: ustr where
  "gen_bad_dates_en_head =
     [9888, 65039] @ ascii '' Generated contract contains invalid dates:'' @ [10, 10]"

definition gen_bad_dates_en_tail :: ustr where
  "gen_bad_dates_en_tail =
     [10, 10] @ ascii ''Please try again.''"

definition edit_failed_ar :: ustr where
  "edit_failed_ar =
     [1593, 1584, 1585, 1575, 1611, 1548, 32, 1581, 1583, 1579, 32, 1582, 1591, 1571, 32,
     1601, 1610, 32, 1575, 1604, 1578, 1593, 1583, 1610, 1604, 46]"

definition edit_failed_en :: ustr where
  "edit_failed_en =
     ascii ''Sorry, error during edit.''"

definition edit_bad_dates_ar_head :: ustr where
  "edit_bad_dates_ar_head =
     [9888, 65039, 32, 1575, 1604, 1578, 1593, 1583, 1610, 1604, 32, 1571, 1606, 1578,
     1580, 32, 1578, 1608, 1575, 1585, 1610, 1582, 32, 1594, 1610, 1585, 32, 1589, 1581,
     1610, 1581, 1577, 58, 10, 10]"

definition edit_bad_dates_ar_tail :: ustr where
  "edit_bad_dates_ar_tail =
     [10, 10, 1575, 1604, 1593, 1602, 1583, 32, 1575, 1604, 1571, 1589, 1604, 1610, 32,
     1605, 1581, 1601, 1608, 1592, 46]"

definition edit_bad_dates_en_head :: ustr where
  "edit_bad_dates_en_head =
     [9888, 65039] @ ascii '' Edit produced invalid dates:'' @ [10, 10]"

definition edit_bad_dates_en_tail :: ustr where
  "edit_bad_dates_en_tail =
     [10, 10] @ ascii ''Original contract preserved.''"

definition date_issues_ar :: ustr where
  "date_issues_ar =
     [10, 10, 9888, 65039, 32, 1605, 1588, 1575, 1603, 1604, 32, 1601, 1610, 32, 1575,
     1604, 1578, 1608, 1575, 1585, 1610, 1582, 58, 10]"

definition date_issues_en :: ustr where
  "date_issues_en =
     [10, 10, 9888, 65039] @ ascii '' Date Issues Found:'' @ [10]"

definition review_failed_ar :: ustr where
  "review_failed_ar =
     [1593, 1584, 1585, 1575, 1611, 1548, 32, 1581, 1583, 1579, 32, 1582, 1591, 1571, 32,
     1601, 1610, 32, 1575, 1604, 1605, 1585, 1575, 1580, 1593, 1577, 46]"

definition review_failed_en :: ustr where
  "review_failed_en =
     ascii ''Sorry, error during review.''"

definition explain_failed_ar :: ustr where
  "explain_failed_ar =
     [1593, 1584, 1585, 1575, 1611, 1548, 32, 1604, 1605, 32, 1571, 1587, 1578, 1591, 1593,
     32, 1575, 1604, 1588, 1585, 1581, 46]"

definition explain_failed_en :: ustr where
  "explain_failed_en =
     ascii ''Sorry, couldn'' @ [39] @ ascii ''t explain.''"

definition created_ar :: ustr where
  "created_ar =
     [1578, 1605, 32, 1573, 1606, 1588, 1575, 1569, 32, 1575, 1604, 1593, 1602, 1583, 32,
     1576, 1606, 1580, 1575, 1581, 32, 10003]"

definition created_en :: ustr where
  "created_en =
     ascii ''Contract created successfully '' @ [10003]"

definition create_error_ar :: ustr where
  "create_error_ar =
     [1582, 1591, 1571, 32, 1601, 1610, 32, 1573, 1606, 1588, 1575, 1569, 32, 1575, 1604,
     1593, 1602, 1583]"

definition create_error_en :: ustr where
  "create_error_en =
     ascii ''Error creating contract''"

definition need_contract_edit_ar :: ustr where
  "need_contract_edit_ar =
     [1571, 1581, 1578, 1575, 1580, 32, 1593, 1602, 1583, 32, 1605, 1608, 1580, 1608, 1583,
     32, 1604, 1571, 1593, 1583, 1604, 1607, 46, 32, 1575, 1604, 1589, 1602, 32, 1575,
     1604, 1593, 1602, 1583, 32, 1571, 1608, 32, 1575, 1591, 1604, 1576, 32, 1573, 1606,
     1588, 1575, 1569, 32, 1593, 1602, 1583, 32, 1580, 1583, 1610, 1583, 46]"

definition need_contract_edit_en :: ustr where
  "need_contract_edit_en =
     ascii
     ''I need an existing contract to edit. Paste one or ask me to create a new contract.''"

definition updated_ar :: ustr where
  "updated_ar =
     [1578, 1605, 32, 1575, 1604, 1578, 1593, 1583, 1610, 1604, 32, 1576, 1606, 1580, 1575,
     1581, 32, 10003]"

definition updated_en :: ustr where
  "updated_en =
     ascii ''Updated successfully '' @ [10003]"

definition not_updated_ar :: ustr where
  "not_updated_ar =
     [1604, 1605, 32, 1571, 1578, 1605, 1603, 1606, 32, 1605, 1606, 32, 1575, 1604, 1578,
     1593, 1583, 1610, 1604, 46, 32, 1607, 1604, 32, 1610, 1605, 1603, 1606, 1603, 32,
     1578, 1608, 1590, 1610, 1581, 32, 1575, 1604, 1591, 1604, 1576, 1567]"

definition not_updated_en :: ustr where
  "not_updated_en =
     ascii ''Couldn'' @ [39] @ ascii ''t update. Can you clarify?''"

definition need_contract_explain_ar :: ustr where
  "need_contract_explain_ar =
     [1571, 1581, 1578, 1575, 1580, 32, 1593, 1602, 1583, 32, 1604, 1571, 1588, 1585, 1581,
     1607, 46, 32, 1575, 1604, 1589, 1602, 32, 1575, 1604, 1593, 1602, 1583, 32, 1571,
     1608, 32, 1575, 1591, 1604, 1576, 32, 1573, 1606, 1588, 1575, 1569, 32, 1593, 1602,
     1583, 32, 1580, 1583, 1610, 1583, 46]"

definition need_contract_explain_en :: ustr where
  "need_contract_explain_en =
     ascii ''I need a contract to explain. Paste one or ask me to create a new contract.''"

definition need_contract_review_ar :: ustr where
  "need_contract_review_ar =
     [1571, 1581, 1578, 1575, 1580, 32, 1593, 1602, 1583, 32, 1604, 1571, 1585, 1575, 1580,
     1593, 1607, 46, 32, 1575, 1604, 1589, 1602, 32, 1575, 1604, 1593, 1602, 1583, 32,
     1571, 1608, 32, 1575, 1591, 1604, 1576, 32, 1573, 1606, 1588, 1575, 1569, 32, 1593,
     1602, 1583, 32, 1580, 1583, 1610, 1583, 46]"

definition need_contract_review_en :: ustr where
  "need_contract_review_en =
     ascii ''I need a contract to review. Paste one or ask me to create a new contract.''"

definition chat_failed_ar :: ustr where
  "chat_failed_ar =
     [1593, 1584, 1585, 1575, 1611, 1548, 32, 1582, 1591, 1571, 32, 1601, 1610, 32, 1605,
     1593, 1575, 1604, 1580, 1577, 32, 1575, 1604, 1591, 1604, 1576]"

definition chat_failed_en :: ustr where
  "chat_failed_en =
     ascii ''Sorry, error processing request''"

subsection \<open>The collaborators of the client\<close>

text \<open>
  The completion backend, the retrieval backend and the construction of the prompts are
  outside the control logic. A request names the call site and carries the arguments
  that its prompt is built from; the backend answers with the text of the first choice,
  or with no response when the call fails (\<open>_chat_completion\<close> returns \<open>None\<close>).
\<close>

datatype lang = Arabic | English

datatype request =
    ClassifyReq ustr bool lang
  | GenerateReq ustr
  | EditReq ustr ustr lang
  | ReviewReq ustr ustr
  | ExplainReq ustr lang
  | ChatReq ustr

text \<open>
  The environment of a client: the ``now'' that its date validator was made with, the
  backend, the reading of the classifier's answer (stripping, removing code fences,
  \<open>json.loads\<close>, the field \<open>action\<close>, formatting the log line; \<open>None\<close> when one of them
  raises), and \<open>str.isalpha\<close> of the Unicode database.
\<close>

record env =
  reference_date :: datetime
  completion :: "request \<Rightarrow> ustr option"
  parse_intent :: "ustr \<Rightarrow> ustr option"
  is_alpha :: "int \<Rightarrow> bool"

text \<open>The contract memory: session identifier to contract text.\<close>

type_synonym memory = "ustr \<rightharpoonup> ustr"

definition set_current_contract :: "memory \<Rightarrow> ustr \<Rightarrow> ustr \<Rightarrow> memory" where
  "set_current_contract mem contract session_id = mem(session_id \<mapsto> contract)"

definition get_current_contract :: "memory \<Rightarrow> ustr \<Rightarrow> ustr option" where
  "get_current_contract mem session_id = mem session_id"

definition clear_contract :: "memory \<Rightarrow> ustr \<Rightarrow> memory" where
  "clear_contract mem session_id = mem(session_id := None)"

definition MIN_CONTRACT_LENGTH :: nat where
  "MIN_CONTRACT_LENGTH = 200"

subsection \<open>Language and date gate\<close>

text \<open>
  \<open>_detect_language\<close>: Arabic when more than 0.3 of the alphabetic characters are in
  U+0600 to U+06FF. The quotient is a float in the source; for a text of fewer than
  \<open>10^15\<close> characters the comparison is the exact one written here.
\<close>

definition detect_language :: "env \<Rightarrow> ustr \<Rightarrow> lang" where
  "detect_language E txt =
     (if txt = [] then English
      else
        (let arabic_chars = length (filter (\<lambda>c. 1536 \<le> c \<and> c \<le> 1791) txt);
             total_chars = length (filter (is_alpha E) txt)
         in if total_chars = 0 then English
            else if 10 * arabic_chars > 3 * total_chars then Arabic else English))"

definition validate_dates_in_text :: "env \<Rightarrow> ustr \<Rightarrow> lang \<Rightarrow> exn + (bool \<times> ustr option)" where
  "validate_dates_in_text E txt lg =
     (case extract_and_validate_dates (reference_date E) txt False of
        Inl e \<Rightarrow> Inl e
      | Inr (all_valid, error_msg, found_dates) \<Rightarrow>
          if \<not> all_valid then
            Inr (False, Some (if lg = Arabic then alert_ar_head @ error_msg @ alert_ar_tail
                              else alert_en_head @ error_msg @ alert_en_tail))
          else Inr (True, None))"

subsection \<open>Intent\<close>

definition classify_intent :: "env \<Rightarrow> ustr \<Rightarrow> bool \<Rightarrow> lang \<Rightarrow> ustr" where
  "classify_intent E user_input has_contract lg =
     (case completion E (ClassifyReq user_input has_contract lg) of
        None \<Rightarrow> ascii ''chat''
      | Some content \<Rightarrow>
          (case parse_intent E content of
             None \<Rightarrow> ascii ''chat''
           | Some a \<Rightarrow> a))"

subsection \<open>Contract operations\<close>

definition generate_contract :: "env \<Rightarrow> ustr \<Rightarrow> exn + ustr option" where
  "generate_contract E user_input =
     (let lg = detect_language E user_input in
      case validate_dates_in_text E user_input lg of
        Inl e \<Rightarrow> Inl e
      | Inr (dates_valid, error_msg) \<Rightarrow>
          if \<not> dates_valid then Inr error_msg
          else
            (case completion E (GenerateReq user_input) of
               None \<Rightarrow> Inr (Some (if lg = Arabic then gen_failed_ar else gen_failed_en))
             | Some content \<Rightarrow>
                 (let generated_contract = strip content in
                  case validate_dates_in_text E generated_contract lg of
                    Inl e \<Rightarrow> Inl e
                  | Inr (dates_valid, error_msg) \<Rightarrow>
                      if \<not> dates_valid then
                        Inr (Some (if lg = Arabic
                                   then gen_bad_dates_ar_head @ the error_msg @ gen_bad_dates_ar_tail
                                   else gen_bad_dates_en_head @ the error_msg @ gen_bad_dates_en_tail))
                      else Inr (Some generated_contract))))"

definition edit_contract :: "env \<Rightarrow> ustr \<Rightarrow> ustr \<Rightarrow> exn + ustr option" where
  "edit_contract E current_contract user_request =
     (let lg = detect_language E user_request in
      case validate_dates_in_text E user_request lg of
        Inl e \<Rightarrow> Inl e
      | Inr (dates_valid, error_msg) \<Rightarrow>
          if \<not> dates_valid then Inr error_msg
          else
            (case completion E (EditReq current_contract user_request lg) of
               None \<Rightarrow> Inr (Some (if lg = Arabic then edit_failed_ar else edit_failed_en))
             | Some content \<Rightarrow>
                 (let edited_contract = strip content in
                  case validate_dates_in_text E edited_contract lg of
                    Inl e \<Rightarrow> Inl e
                  | Inr (dates_valid, error_msg) \<Rightarrow>
                      if \<not> dates_valid then
                        Inr (Some (if lg = Arabic
                                   then edit_bad_dates_ar_head @ the error_msg @ edit_bad_dates_ar_tail
                                   else edit_bad_dates_en_head @ the error_msg @ edit_bad_dates_en_tail))
                      else Inr (Some edited_contract))))"

definition review_contract :: "env \<Rightarrow> ustr \<Rightarrow> exn + ustr option" where
  "review_contract E contract_text =
     (let lg = detect_language E contract_text in
      case extract_and_validate_dates (reference_date E) contract_text True of
        Inl e \<Rightarrow> Inl e
      | Inr (dates_valid, date_error, found_dates) \<Rightarrow>
          (let date_analysis =
                 (if \<not> dates_valid then
                    (if lg = Arabic then date_issues_ar @ date_error
                     else date_issues_en @ date_error)
                  else [])
           in case completion E (ReviewReq contract_text date_analysis) of
                None \<Rightarrow> Inr (Some (if lg = Arabic then review_failed_ar else review_failed_en))
              | Some content \<Rightarrow> Inr (Some (strip content))))"

definition explain_clause :: "env \<Rightarrow> ustr \<Rightarrow> ustr \<Rightarrow> ustr option" where
  "explain_clause E contract_text user_query =
     (let user_language = detect_language E user_query in
      case completion E (ExplainReq user_query user_language) of
        None \<Rightarrow> Some (if user_language = Arabic then explain_failed_ar else explain_failed_en)
      | Some content \<Rightarrow> Some (strip content))"

subsection \<open>The router \<open>get_chat_response\<close>\<close>

datatype action_tag = Updated | Unchanged | NoContract

text \<open>Python's truth of an optional text: present and not empty.\<close>

definition truthy :: "ustr option \<Rightarrow> bool" where
  "truthy x \<longleftrightarrow> (case x of None \<Rightarrow> False | Some s \<Rightarrow> s \<noteq> [])"

text \<open>
  The test by which the router takes the text of an operation for an error message:
  it starts with the warning sign, or the Arabic word for error is in its first 50
  characters.
\<close>

definition looks_like_error :: "ustr \<Rightarrow> bool" where
  "looks_like_error s \<longleftrightarrow> startswith s warning_sign \<or> contains (take 50 s) error_token_ar"

text \<open>
  The result is the triple (message, contract, action) together with the memory after
  the call. The message of an operation is an optional text in the source.
\<close>

type_synonym routing_result = "ustr option \<times> ustr option \<times> action_tag"

text \<open>
  The start of the router: a contract supplied by the caller that is not blank is
  written to the memory as it came, and its stripped text is the active contract;
  otherwise the active contract is the stored one.
\<close>

definition supplied :: "ustr option \<Rightarrow> bool" where
  "supplied current_contract \<longleftrightarrow>
     truthy current_contract \<and> truthy (map_option strip current_contract)"

definition synced_memory :: "memory \<Rightarrow> ustr option \<Rightarrow> ustr \<Rightarrow> memory" where
  "synced_memory mem current_contract session_id =
     (if supplied current_contract
      then set_current_contract mem (the current_contract) session_id
      else mem)"

definition active_contract_of :: "memory \<Rightarrow> ustr option \<Rightarrow> ustr \<Rightarrow> ustr option" where
  "active_contract_of mem current_contract session_id =
     (if supplied current_contract then map_option strip current_contract
      else get_current_contract (synced_memory mem current_contract session_id) session_id)"

text \<open>The branches of the dispatch, each with the memory after the sync.\<close>

definition route_create ::
    "env \<Rightarrow> lang \<Rightarrow> memory \<Rightarrow> ustr option \<Rightarrow> ustr \<Rightarrow> ustr \<Rightarrow> exn + (routing_result \<times> memory)" where
  "route_create E lg mem active_contract user_input session_id =
     (case generate_contract E user_input of
        Inl e \<Rightarrow> Inl e
      | Inr contract \<Rightarrow>
          if truthy contract \<and> looks_like_error (the contract) then
            (if truthy active_contract then Inr ((contract, active_contract, Unchanged), mem)
             else Inr ((contract, None, NoContract), mem))
          else if truthy contract then
            Inr ((Some (if lg = Arabic then created_ar else created_en), contract, Updated),
                 set_current_contract mem (the contract) session_id)
          else
            (let error_msg = (if lg = Arabic then create_error_ar else create_error_en)
             in if truthy active_contract
                then Inr ((Some error_msg, active_contract, Unchanged), mem)
                else Inr ((Some error_msg, None, NoContract), mem)))"

definition route_edit ::
    "env \<Rightarrow> lang \<Rightarrow> memory \<Rightarrow> ustr option \<Rightarrow> ustr \<Rightarrow> ustr \<Rightarrow> exn + (routing_result \<times> memory)" where
  "route_edit E lg mem active_contract user_input session_id =
     (if active_contract = None then
        Inr ((Some (if lg = Arabic then need_contract_edit_ar else need_contract_edit_en),
              None, NoContract), mem)
      else
        (case edit_contract E (the active_contract) user_input of
           Inl e \<Rightarrow> Inl e
         | Inr updated \<Rightarrow>
             if truthy updated \<and> looks_like_error (the updated) then
               Inr ((updated, active_contract, Unchanged), mem)
             else if truthy updated \<and> length (strip (the updated)) \<ge> MIN_CONTRACT_LENGTH
                     \<and> updated \<noteq> active_contract then
               Inr ((Some (if lg = Arabic then updated_ar else updated_en), updated, Updated),
                    set_current_contract mem (the updated) session_id)
             else
               Inr ((Some (if lg = Arabic then not_updated_ar else not_updated_en),
                     active_contract, Unchanged), mem)))"

definition route_explain ::
    "env \<Rightarrow> lang \<Rightarrow> memory \<Rightarrow> ustr option \<Rightarrow> ustr \<Rightarrow> exn + (routing_result \<times> memory)" where
  "route_explain E lg mem active_contract user_input =
     (if active_contract = None then
        Inr ((Some (if lg = Arabic then need_contract_explain_ar
                    else need_contract_explain_en), None, NoContract), mem)
      else Inr ((explain_clause E (the active_contract) user_input, active_contract,
                 Unchanged), mem))"

definition route_review ::
    "env \<Rightarrow> lang \<Rightarrow> memory \<Rightarrow> ustr option \<Rightarrow> exn + (routing_result \<times> memory)" where
  "route_review E lg mem active_contract =
     (if active_contract = None then
        Inr ((Some (if lg = Arabic then need_contract_review_ar
                    else need_contract_review_en), None, NoContract), mem)
      else
        (case review_contract E (the active_contract) of
           Inl e \<Rightarrow> Inl e
         | Inr review \<Rightarrow> Inr ((review, active_contract, Unchanged), mem)))"

definition route_chat ::
    "env \<Rightarrow> lang \<Rightarrow> memory \<Rightarrow> ustr option \<Rightarrow> ustr \<Rightarrow> exn + (routing_result \<times> memory)" where
  "route_chat E lg mem active_contract user_input =
     (case completion E (ChatReq user_input) of
        None \<Rightarrow>
          (let msg = (if lg = Arabic then chat_failed_ar else chat_failed_en)
           in if active_contract \<noteq> None then Inr ((Some msg, active_contract, Unchanged), mem)
              else Inr ((Some msg, None, NoContract), mem))
      | Some content \<Rightarrow>
          (let result = strip content
           in if active_contract \<noteq> None then Inr ((Some result, active_contract, Unchanged), mem)
              else Inr ((Some result, None, NoContract), mem)))"

text \<open>
  \<open>get_chat_response\<close>: language, sync, intent, dispatch. The flag \<open>has_contract\<close> of the
  source is \<open>active_contract \<noteq> None\<close>.
\<close>

definition get_chat_response ::
    "env \<Rightarrow> memory \<Rightarrow> ustr \<Rightarrow> ustr option \<Rightarrow> ustr \<Rightarrow> exn + (routing_result \<times> memory)" where
  "get_chat_response E mem0 user_input current_contract session_id =
     (let lg = detect_language E user_input;
          mem = synced_memory mem0 current_contract session_id;
          active_contract = active_contract_of mem0 current_contract session_id;
          has_contract = (active_contract \<noteq> None);
          action_type = classify_intent E user_input has_contract lg
      in
      if action_type = ascii ''create'' then
        route_create E lg mem active_contract user_input session_id
      else if action_type = ascii ''edit'' then
        route_edit E lg mem active_contract user_input session_id
      else if action_type = ascii ''explain'' then
        route_explain E lg mem active_contract user_input
      else if action_type = ascii ''review'' then
        route_review E lg mem active_contract
      else route_chat E lg mem active_contract user_input)"

section \<open>Notions used in the proofs\<close>

text \<open>
  What a successful match says about its pieces: the piece of a repeated class consists
  of characters of the class and has a length within the bounds; the piece of an
  alternation matches one of its branches, character by character.
\<close>

fun piece_ok :: "atom \<Rightarrow> ustr \<Rightarrow> bool" where
  "piece_ok (Rep cls lo hi) p \<longleftrightarrow>
     list_all cls p \<and> lo \<le> length p \<and> (case hi of None \<Rightarrow> True | Some h \<Rightarrow> length p \<le> h)"
| "piece_ok (Alts bs) p \<longleftrightarrow> list_ex (\<lambda>b. list_all2 (\<lambda>q c. q c) b p) bs"

text \<open>An upper bound on the length of a piece, and the characters a piece may hold.\<close>

fun atom_bounded :: "atom \<Rightarrow> bool" where
  "atom_bounded (Rep cls lo hi) = (hi \<noteq> None)"
| "atom_bounded (Alts bs) = True"

fun atom_max :: "atom \<Rightarrow> nat" where
  "atom_max (Rep cls lo hi) = (case hi of None \<Rightarrow> 0 | Some h \<Rightarrow> h)"
| "atom_max (Alts bs) = foldr (\<lambda>b m. max (length b) m) bs 0"

fun atom_char :: "atom \<Rightarrow> int \<Rightarrow> bool" where
  "atom_char (Rep cls lo hi) c = cls c"
| "atom_char (Alts bs) c = list_ex (\<lambda>b. list_ex (\<lambda>q. q c) b) bs"

text \<open>
  Texts on which \<open>parse_date\<close> cannot raise: short ones, and ones without a separator.
\<close>

definition scannable :: "ustr \<Rightarrow> bool" where
  "scannable s \<longleftrightarrow> length s \<le> 11 \<or> (47 \<notin> set s \<and> 45 \<notin> set s \<and> 46 \<notin> set s)"

text \<open>The order of the calendar dates of two datetimes.\<close>

definition ymd_less :: "datetime \<Rightarrow> datetime \<Rightarrow> bool" where
  "ymd_less a b \<longleftrightarrow> year a < year b \<or> (year a = year b \<and> (month a < month b
     \<or> (month a = month b \<and> day a < day b)))"

section \<open>Concrete inputs\<close>

text \<open>
  A reference date, a few dates, a session, and environments whose backend answers in a
  fixed way; they are the inputs at which the theorems below are instantiated.
\<close>

definition ref0 :: datetime where
  "ref0 = \<lparr>year = 2026, month = 1, day = 1, hour = 0, minute = 0, second = 0, microsecond = 0\<rparr>"

definition date_of :: "int \<Rightarrow> int \<Rightarrow> int \<Rightarrow> datetime" where
  "date_of y m d = \<lparr>year = y, month = m, day = d, hour = 0, minute = 0, second = 0,
     microsecond = 0\<rparr>"

definition ascii_alpha :: "int \<Rightarrow> bool" where
  "ascii_alpha c \<longleftrightarrow> (65 \<le> c \<and> c \<le> 90) \<or> (97 \<le> c \<and> c \<le> 122)"

definition sid0 :: ustr where
  "sid0 = ascii ''default''"

definition memory_with :: "ustr \<Rightarrow> memory" where
  "memory_with c = [sid0 \<mapsto> c]"

text \<open>
  The classifier answers \<open>create\<close> and every other completion call fails.
\<close>

definition env_create_fails :: env where
  "env_create_fails =
     \<lparr>reference_date = ref0,
      completion = (\<lambda>r. case r of ClassifyReq u h l \<Rightarrow> Some [] | _ \<Rightarrow> None),
      parse_intent = (\<lambda>c. Some (ascii ''create'')),
      is_alpha = ascii_alpha\<rparr>"

text \<open>Every completion call fails; the answer of the classifier cannot be read.\<close>

definition env_no_backend :: env where
  "env_no_backend =
     \<lparr>reference_date = ref0, completion = (\<lambda>r. None), parse_intent = (\<lambda>c. None),
      is_alpha = ascii_alpha\<rparr>"

text \<open>The classifier answers \<open>create\<close> and the generation returns the text \<open>X\<close>.\<close>

definition env_create_echo :: env where
  "env_create_echo =
     \<lparr>reference_date = ref0,
      completion = (\<lambda>r. case r of GenerateReq u \<Rightarrow> Some (ascii ''X'') | _ \<Rightarrow> Some []),
      parse_intent = (\<lambda>c. Some (ascii ''create'')),
      is_alpha = ascii_alpha\<rparr>"

text \<open>The classifier answers \<open>edit\<close> and every other completion call fails.\<close>

definition env_edit_fails :: env where
  "env_edit_fails =
     \<lparr>reference_date = ref0,
      completion = (\<lambda>r. case r of ClassifyReq u h l \<Rightarrow> Some [] | _ \<Rightarrow> None),
      parse_intent = (\<lambda>c. Some (ascii ''edit'')),
      is_alpha = ascii_alpha\<rparr>"

text \<open>A text with an impossible date and a range that runs backward, and its two errors.\<close>

definition text_bad_date_and_range :: ustr where
  "text_bad_date_and_range = ascii ''30/02/2027 from 10/01/2027 to 05/01/2027''"

definition backward_range_error :: ustr where
  "backward_range_error =
     ascii ''End date 05/01/2027 must be after start date 10/01/2027. ''
       @ ascii ''The lease period goes backward in time.''"

definition bad_date_error :: ustr where
  "bad_date_error =
     ascii ''Invalid date '' @ [39] @ ascii ''30/02/2027'' @ [39]
       @ ascii '': Invalid date format: 30/02/2027''"

text \<open>
  A text whose range runs backward and is worded with \<open>until\<close>, and a backend whose
  generation returns it; the classifier answers \<open>create\<close>.
\<close>

definition text_backward_until :: ustr where
  "text_backward_until = ascii ''Lease runs from 10/01/2027 until 05/01/2027''"

definition env_create_backward :: env where
  "env_create_backward =
     \<lparr>reference_date = ref0,
      completion = (\<lambda>r. case r of GenerateReq u \<Rightarrow> Some text_backward_until | _ \<Rightarrow> Some []),
      parse_intent = (\<lambda>c. Some (ascii ''create'')),
      is_alpha = ascii_alpha\<rparr>"

text \<open>
  A text whose range runs forward and is worded with \<open>to\<close>, and a backend whose
  generation returns it; the classifier answers \<open>create\<close>.
\<close>

definition text_forward_range :: ustr where
  "text_forward_range = ascii ''Lease runs from 10/01/2027 to 05/01/2028''"

definition env_create_forward :: env where
  "env_create_forward =
     \<lparr>reference_date = ref0,
      completion = (\<lambda>r. case r of GenerateReq u \<Rightarrow> Some text_forward_range | _ \<Rightarrow> Some []),
      parse_intent = (\<lambda>c. Some (ascii ''create'')),
      is_alpha = ascii_alpha\<rparr>"

section \<open>Facts about matching\<close>

lemma takeWhile_take_all:
  "n \<le> length (takeWhile P s) \<Longrightarrow> list_all P (take n s)"
proof (induction s arbitrary: n)
  case Nil
  then show ?case by simp
next
  case (Cons c cs)
  then show ?case by (cases n) (auto split: if_splits)
qed

lemma atom_choices_ok:
  "n \<in> set (atom_choices a s) \<Longrightarrow> n \<le> length s \<and> piece_ok a (take n s)"
proof (cases a)
  case (Rep cls lo hi)
  assume n: "n \<in> set (atom_choices a s)"
  let ?r = "length (takeWhile cls s)"
  have r: "?r \<le> length s" by (rule length_takeWhile_le)
  from n Rep have b: "lo \<le> n" "n \<le> ?r" "case hi of None \<Rightarrow> True | Some h \<Rightarrow> n \<le> h"
    by (auto simp: Let_def split: option.splits)
  from b(2) have "list_all cls (take n s)" by (rule takeWhile_take_all)
  with b r Rep show ?thesis by (auto split: option.splits)
next
  case (Alts bs)
  assume n: "n \<in> set (atom_choices a s)"
  then obtain b where b: "b \<in> set bs" "branch_matches b s" "n = length b"
    using Alts by auto
  then show ?thesis using Alts
    by (auto simp: branch_matches_def list_ex_iff)
qed

lemma try_sound:
  "(try_atoms pat s = Some (ps, rest) \<longrightarrow>
      s = concat ps @ rest \<and> list_all2 piece_ok (map fst pat) ps)"
  "(try_choices pat ns s = Some (qs, rest) \<longrightarrow> (\<forall>n \<in> set ns. n \<le> length s \<and> piece_ok a (take n s)) \<longrightarrow>
      (\<exists>p ps. qs = p # ps \<and> s = concat qs @ rest \<and> piece_ok a p
          \<and> list_all2 piece_ok (map fst pat) ps))"
proof (induction pat s and pat ns s arbitrary: ps rest and qs rest a rule: try_atoms_try_choices.induct)
  case (1 s)
  show ?case by auto
next
  case (2 a as s)
  show ?case
  proof
    assume h: "try_atoms (a # as) s = Some (ps, rest)"
    then have "try_choices as (atom_choices (fst a) s) s = Some (ps, rest)" by simp
    moreover have "\<forall>n \<in> set (atom_choices (fst a) s). n \<le> length s \<and> piece_ok (fst a) (take n s)"
      using atom_choices_ok by blast
    ultimately obtain p ps' where "ps = p # ps'" "s = concat ps @ rest" "piece_ok (fst a) p"
        "list_all2 piece_ok (map fst as) ps'"
      using "2.IH"[of ps rest "fst a"] by blast
    then show "s = concat ps @ rest \<and> list_all2 piece_ok (map fst (a # as)) ps" by simp
  qed
next
  case (3 as s)
  show ?case by simp
next
  case (4 as n ns s)
  show ?case
  proof (intro impI)
    assume h: "try_choices as (n # ns) s = Some (qs, rest)"
      and ok: "\<forall>n \<in> set (n # ns). n \<le> length s \<and> piece_ok a (take n s)"
    show "\<exists>p ps. qs = p # ps \<and> s = concat qs @ rest \<and> piece_ok a p
          \<and> list_all2 piece_ok (map fst as) ps"
    proof (cases "try_atoms as (drop n s)")
      case None
      with h have "try_choices as ns s = Some (qs, rest)" by simp
      with "4.IH"(2)[OF None, of qs rest a] ok show ?thesis by simp
    next
      case (Some r)
      obtain ps' rest' where r: "r = (ps', rest')" by (cases r)
      with Some h have q: "qs = take n s # ps'" "rest = rest'" by simp_all
      from "4.IH"(1)[of ps' rest'] Some r have "drop n s = concat ps' @ rest'"
        "list_all2 piece_ok (map fst as) ps'" by simp_all
      moreover have "s = take n s @ drop n s" by simp
      ultimately show ?thesis using q ok by (metis append.assoc concat.simps(2) list.set_intros(1))
    qed
  qed
qed

lemma try_atoms_sound:
  "try_atoms pat s = Some (ps, rest) \<Longrightarrow> s = concat ps @ rest \<and> list_all2 piece_ok (map fst pat) ps"
  using try_sound(1) by blast

lemma finditer_from_sound:
  "ps \<in> set (finditer_from pat k s) \<Longrightarrow> \<exists>s' rest. try_atoms pat s' = Some (ps, rest)"
proof (induction pat k s rule: finditer_from.induct)
  case (1 pat k)
  note prem = "1"
  show ?case
  proof (cases "try_atoms pat []")
    case None
    have c: "finditer_from pat k [] = []" using None by simp
    have False using prem unfolding c by simp
    then show ?thesis ..
  next
    case (Some r)
    obtain qs rest where r: "r = (qs, rest)" by (cases r)
    have c: "finditer_from pat k [] = (if k = 0 then [qs] else [])" using Some r by simp
    have "ps = qs" using prem unfolding c by (simp split: if_splits)
    with Some r show ?thesis by blast
  qed
next
  case (2 pat k c cs)
  note prem = "2.prems"
  show ?case
  proof (cases "k > 0")
    case True
    have c: "finditer_from pat k (c # cs) = finditer_from pat (k - 1) cs" using True by simp
    show ?thesis using "2.IH"(1)[OF True] prem unfolding c .
  next
    case False
    show ?thesis
    proof (cases "try_atoms pat (c # cs)")
      case None
      have c: "finditer_from pat k (c # cs) = finditer_from pat 0 cs" using False None by simp
      show ?thesis using "2.IH"(2)[OF False None] prem unfolding c .
    next
      case (Some r)
      obtain qs rest where r: "r = (qs, rest)" by (cases r)
      have c: "finditer_from pat k (c # cs) = qs # finditer_from pat (length (concat qs) - 1) cs"
        using False Some r by simp
      have "ps = qs \<or> ps \<in> set (finditer_from pat (length (concat qs) - 1) cs)"
        using prem unfolding c by simp
      then show ?thesis
      proof
        assume "ps = qs"
        with Some r show ?thesis by blast
      next
        assume "ps \<in> set (finditer_from pat (length (concat qs) - 1) cs)"
        then show ?thesis using "2.IH"(3)[OF False Some r[symmetric]] by simp
      qed
    qed
  qed
qed

lemma search_sound:
  "search pat s = Some ps \<Longrightarrow> \<exists>s' rest. try_atoms pat s' = Some (ps, rest)"
  by (induction pat s rule: search.induct) (auto split: option.splits)

lemma piece_ok_length:
  "piece_ok a p \<Longrightarrow> atom_bounded a \<Longrightarrow> length p \<le> atom_max a"
proof (cases a)
  case (Rep cls lo hi)
  assume "piece_ok a p" "atom_bounded a"
  with Rep show ?thesis by (auto split: option.splits)
next
  case (Alts bs)
  assume ok: "piece_ok a p"
  have "list_ex (\<lambda>b. list_all2 (\<lambda>q c. q c) b p) bs \<Longrightarrow> length p \<le> foldr (\<lambda>b m. max (length b) m) bs 0"
    by (induction bs) (auto dest: list_all2_lengthD)
  with ok Alts show ?thesis by simp
qed

lemma branch_char:
  "list_all2 (\<lambda>q c. q c) b p \<Longrightarrow> c \<in> set p \<Longrightarrow> list_ex (\<lambda>q. q c) b"
  by (induction b p rule: list_all2_induct) auto

lemma branches_char:
  "list_ex (\<lambda>b. list_all2 (\<lambda>q c. q c) b p) bs \<Longrightarrow> c \<in> set p \<Longrightarrow>
     list_ex (\<lambda>b. list_ex (\<lambda>q. q c) b) bs"
  by (induction bs) (auto intro: branch_char)

lemma piece_ok_char:
  "piece_ok a p \<Longrightarrow> c \<in> set p \<Longrightarrow> atom_char a c"
proof (cases a)
  case (Rep cls lo hi)
  assume "piece_ok a p" "c \<in> set p"
  with Rep show ?thesis by (simp add: list_all_iff)
next
  case (Alts bs)
  assume "piece_ok a p" "c \<in> set p"
  with Alts show ?thesis by (simp add: branches_char)
qed

lemma group_Cons:
  "group (a # pat) (p # ps) k = (if snd a = k then p else []) @ group pat ps k"
  by (simp add: group_def)

lemma group_Nil: "group [] ps k = []"
  by (simp add: group_def)

lemma group_length_le:
  "list_all2 piece_ok (map fst pat) ps \<Longrightarrow> \<forall>a \<in> set pat. snd a = k \<longrightarrow> atom_bounded (fst a) \<Longrightarrow>
     length (group pat ps k) \<le> sum_list (map (\<lambda>a. atom_max (fst a)) (filter (\<lambda>a. snd a = k) pat))"
proof (induction pat arbitrary: ps)
  case Nil
  then show ?case by (simp add: group_Nil)
next
  case (Cons a pat)
  from Cons.prems(1) obtain p ps' where ps: "ps = p # ps'" "piece_ok (fst a) p"
      "list_all2 piece_ok (map fst pat) ps'"
    by (auto simp: list_all2_Cons1)
  have ih: "length (group pat ps' k) \<le> sum_list (map (\<lambda>a. atom_max (fst a)) (filter (\<lambda>a. snd a = k) pat))"
    using Cons.IH[OF ps(3)] Cons.prems(2) by simp
  show ?case
  proof (cases "snd a = k")
    case True
    with Cons.prems(2) have "atom_bounded (fst a)" by simp
    with ps(2) have "length p \<le> atom_max (fst a)" by (rule piece_ok_length)
    with ih True ps(1) show ?thesis by (simp add: group_Cons)
  next
    case False
    with ih ps(1) show ?thesis by (simp add: group_Cons)
  qed
qed

lemma concat_length_le:
  "list_all2 piece_ok (map fst pat) ps \<Longrightarrow> \<forall>a \<in> set pat. atom_bounded (fst a) \<Longrightarrow>
     length (concat ps) \<le> sum_list (map (\<lambda>a. atom_max (fst a)) pat)"
proof (induction pat arbitrary: ps)
  case Nil
  then show ?case by simp
next
  case (Cons a pat)
  from Cons.prems(1) obtain p ps' where ps: "ps = p # ps'" "piece_ok (fst a) p"
      "list_all2 piece_ok (map fst pat) ps'"
    by (auto simp: list_all2_Cons1)
  have "length (concat ps') \<le> sum_list (map (\<lambda>a. atom_max (fst a)) pat)"
    using Cons.IH[OF ps(3)] Cons.prems(2) by simp
  moreover have "length p \<le> atom_max (fst a)"
    using ps(2) Cons.prems(2) by (simp add: piece_ok_length)
  ultimately show ?case using ps(1) by simp
qed

lemma concat_chars:
  "list_all2 piece_ok (map fst pat) ps \<Longrightarrow> c \<in> set (concat ps) \<Longrightarrow>
     \<exists>a \<in> set pat. atom_char (fst a) c"
proof (induction pat arbitrary: ps)
  case Nil
  then show ?case by simp
next
  case (Cons a pat)
  from Cons.prems(1) obtain p ps' where ps: "ps = p # ps'" "piece_ok (fst a) p"
      "list_all2 piece_ok (map fst pat) ps'"
    by (auto simp: list_all2_Cons1)
  from Cons.prems(2) ps(1) have "c \<in> set p \<or> c \<in> set (concat ps')" by auto
  then show ?case
  proof
    assume "c \<in> set p"
    with ps(2) have "atom_char (fst a) c" by (rule piece_ok_char)
    then show ?thesis by simp
  next
    assume "c \<in> set (concat ps')"
    with Cons.IH[OF ps(3)] show ?thesis by auto
  qed
qed

section \<open>Facts about text and numbers\<close>

lemma split_nonempty: "split sep s \<noteq> []"
  by (induction s) (auto split: list.splits)

lemma split_lengths:
  "sum_list (map length (split sep s)) + length (split sep s) = Suc (length s)"
proof (induction s)
  case Nil
  show ?case by simp
next
  case (Cons c cs)
  obtain p ps where ps: "split sep cs = p # ps"
    using split_nonempty[of sep cs] by (cases "split sep cs") auto
  with Cons show ?case by simp
qed

lemma split_part_length:
  assumes "length (split sep s) = 3" and "i < 3"
  shows "length (split sep s ! i) + 2 \<le> length s"
proof -
  obtain a b c where abc: "split sep s = [a, b, c]"
    using assms(1) by (auto simp: length_Suc_conv numeral_3_eq_3)
  have "length a + length b + length c + 3 = Suc (length s)"
    using split_lengths[of sep s] abc by simp
  moreover from assms(2) have "i = 0 \<or> i = 1 \<or> i = 2" by auto
  ultimately show ?thesis using abc by auto
qed

lemma strip_length: "length (strip s) \<le> length s"
proof -
  have "length (dropWhile is_space (rev (dropWhile is_space s))) \<le> length (rev (dropWhile is_space s))"
    by (rule length_dropWhile_le)
  also have "\<dots> \<le> length s" by (simp add: length_dropWhile_le)
  finally show ?thesis by (simp add: strip_def)
qed

lemma int_strip_length: "length (int_strip s) \<le> length s"
proof -
  have "length (dropWhile int_space (rev (dropWhile int_space s))) \<le> length (rev (dropWhile int_space s))"
    by (rule length_dropWhile_le)
  also have "\<dots> \<le> length s" by (simp add: length_dropWhile_le)
  finally show ?thesis by (simp add: int_strip_def)
qed

lemma strip_set: "set (strip s) \<subseteq> set s"
proof -
  have "set (dropWhile is_space (rev (dropWhile is_space s))) \<subseteq> set (rev (dropWhile is_space s))"
    by (meson set_dropWhileD subsetI)
  moreover have "set (dropWhile is_space s) \<subseteq> set s"
    by (meson set_dropWhileD subsetI)
  ultimately show ?thesis by (auto simp: strip_def)
qed

lemma decimal_value_range: "decimal_value c = Some v \<Longrightarrow> 0 \<le> v \<and> v \<le> 9"
  by (auto simp: decimal_value_def find_Some_iff)

lemma foldl_digits_bound:
  "\<forall>d \<in> set ds. 0 \<le> d \<and> d \<le> 9 \<Longrightarrow> 0 \<le> (a::int) \<Longrightarrow>
     0 \<le> foldl (\<lambda>acc d. 10 * acc + d) a ds
       \<and> foldl (\<lambda>acc d. 10 * acc + d) a ds < (a + 1) * 10 ^ length ds"
proof (induction ds arbitrary: a)
  case Nil
  then show ?case by auto
next
  case (Cons d ds)
  from Cons.prems have d: "0 \<le> d" "d \<le> 9" and a: "0 \<le> a" by simp_all
  have "0 \<le> 10 * a + d" using d a by simp
  with Cons.IH[of "10 * a + d"] Cons.prems
  have ih: "0 \<le> foldl (\<lambda>acc d. 10 * acc + d) (10 * a + d) ds"
    "foldl (\<lambda>acc d. 10 * acc + d) (10 * a + d) ds < (10 * a + d + 1) * 10 ^ length ds"
    by simp_all
  have "(10 * a + d + 1) * 10 ^ length ds \<le> (10 * (a + 1)) * (10::int) ^ length ds"
    using d by (intro mult_right_mono) simp_all
  also have "\<dots> = (a + 1) * 10 ^ length (d # ds)" by simp
  finally have le: "(10 * a + d + 1) * 10 ^ length ds \<le> (a + 1) * 10 ^ length (d # ds)" .
  from ih(2) le
  have "foldl (\<lambda>acc d. 10 * acc + d) (10 * a + d) ds < (a + 1) * 10 ^ length (d # ds)"
    by (rule less_le_trans)
  with ih(1) show ?case by simp
qed

lemma digits_value_bound:
  "\<forall>d \<in> set ds. 0 \<le> d \<and> d \<le> 9 \<Longrightarrow> 0 \<le> digits_value ds \<and> digits_value ds < 10 ^ length ds"
  using foldl_digits_bound[of ds 0] by (simp add: digits_value_def)

lemma int_unsigned_bound:
  assumes "int_unsigned body = Some n"
  shows "0 \<le> n \<and> n < 10 ^ length body"
proof -
  let ?gs = "split 95 body"
  let ?ds = "map (\<lambda>c. the (decimal_value c)) (concat ?gs)"
  from assms have dec: "\<forall>g \<in> set ?gs. \<forall>c \<in> set g. is_decimal c"
    and n: "n = digits_value ?ds"
    by (auto simp: int_unsigned_def Let_def split: if_splits)
  have "\<forall>d \<in> set ?ds. 0 \<le> d \<and> d \<le> 9"
  proof
    fix d assume "d \<in> set ?ds"
    then obtain c where c: "c \<in> set (concat ?gs)" "d = the (decimal_value c)" by auto
    with dec have "is_decimal c" by auto
    then obtain v where "decimal_value c = Some v" by (auto simp: is_decimal_def)
    with c(2) decimal_value_range show "0 \<le> d \<and> d \<le> 9" by simp
  qed
  then have "0 \<le> digits_value ?ds \<and> digits_value ?ds < 10 ^ length ?ds"
    by (rule digits_value_bound)
  then have b: "0 \<le> n" "n < 10 ^ length (concat ?gs)" using n by simp_all
  have "length (concat ?gs) = sum_list (map length ?gs)" by (simp add: length_concat)
  also have "\<dots> \<le> length body" using split_lengths[of 95 body] split_nonempty[of 95 body]
    by (cases ?gs) auto
  finally have "length (concat ?gs) \<le> length body" .
  then have "(10::int) ^ length (concat ?gs) \<le> 10 ^ length body"
    by (intro power_increasing) simp_all
  with b show ?thesis by linarith
qed

lemma py_int_bound:
  assumes "py_int s = Some n"
  shows "\<bar>n\<bar> < 10 ^ length s"
proof -
  have le: "length (int_strip s) \<le> length s" by (rule int_strip_length)
  obtain c cs where st: "int_strip s = c # cs"
    using assms by (cases "int_strip s") (auto simp: py_int_def)
  have "\<bar>n\<bar> < 10 ^ length (int_strip s)"
  proof (cases "c = 45 \<or> c = 43")
    case True
    with assms st obtain m where m: "int_unsigned cs = Some m" "\<bar>n\<bar> = \<bar>m\<bar>"
      by (auto simp: py_int_def split: if_splits)
    from int_unsigned_bound[OF m(1)] have "0 \<le> m" "m < 10 ^ length cs" by simp_all
    moreover have "(10::int) ^ length cs \<le> 10 ^ length (c # cs)" by simp
    ultimately show ?thesis using m(2) st by simp
  next
    case False
    with assms st have "int_unsigned (c # cs) = Some n" by (auto simp: py_int_def)
    from int_unsigned_bound[OF this] st show ?thesis by simp
  qed
  moreover have "(10::int) ^ length (int_strip s) \<le> 10 ^ length s"
    using le by (intro power_increasing) simp_all
  ultimately show ?thesis by linarith
qed

lemma py_int_fits:
  "py_int s = Some n \<Longrightarrow> length s \<le> 9 \<Longrightarrow> fits_c_int n"
proof -
  assume a: "py_int s = Some n" and l: "length s \<le> 9"
  have "\<bar>n\<bar> < 10 ^ length s" using a by (rule py_int_bound)
  moreover have "(10::int) ^ length s \<le> 10 ^ 9"
    using l by (intro power_increasing) simp_all
  ultimately have "\<bar>n\<bar> < 1000000000" by simp
  then show ?thesis unfolding fits_c_int_def by linarith
qed

lemma datetime_new_fits:
  "fits_c_int y \<Longrightarrow> fits_c_int m \<Longrightarrow> fits_c_int d \<Longrightarrow> datetime_new y m d = Inl e \<Longrightarrow> e = ValueError"
  by (auto simp: datetime_new_def monthrange_days_def split: if_splits sum.splits)

lemma datetime_new_valid:
  "datetime_new y m d = Inr t \<Longrightarrow>
     t = \<lparr>year = y, month = m, day = d, hour = 0, minute = 0, second = 0, microsecond = 0\<rparr>
       \<and> is_valid_date d m y \<and> 1 \<le> y \<and> y \<le> 9999"
  by (auto simp: datetime_new_def is_valid_date_def split: if_splits sum.splits)

section \<open>\<open>parse_date\<close> raises only on huge components\<close>

lemma build_date_no_raise:
  assumes "length p0 \<le> 9" "length p1 \<le> 9" "length p2 \<le> 9"
    and mk: "\<And>a b c e. fits_c_int a \<Longrightarrow> fits_c_int b \<Longrightarrow> fits_c_int c \<Longrightarrow> mk a b c = Inl e \<Longrightarrow> e = ValueError"
  shows "\<exists>r. build_date p0 p1 p2 mk = Inr r"
proof (cases "py_int p0")
  case None
  then show ?thesis by (simp add: build_date_def)
next
  case a: (Some a)
  show ?thesis
  proof (cases "py_int p1")
    case None
    with a show ?thesis by (simp add: build_date_def)
  next
    case b: (Some b)
    show ?thesis
    proof (cases "py_int p2")
      case None
      with a b show ?thesis by (simp add: build_date_def)
    next
      case c: (Some c)
      have f: "fits_c_int a" "fits_c_int b" "fits_c_int c"
        using a b c assms(1-3) by (auto intro: py_int_fits)
      show ?thesis
      proof (cases "mk a b c")
        case (Inl e)
        with mk[OF f] have "e = ValueError" by simp
        with Inl a b c show ?thesis by (simp add: build_date_def)
      next
        case (Inr t)
        with a b c show ?thesis by (simp add: build_date_def)
      qed
    qed
  qed
qed

lemma manual_parse_short:
  "length s \<le> 11 \<Longrightarrow> \<exists>r. manual_parse seps s = Inr r"
proof (induction seps)
  case Nil
  show ?case by simp
next
  case (Cons sep seps)
  show ?case
  proof (cases "sep \<in> set s \<and> length (split sep s) = 3
                 \<and> (length (split sep s ! 2) = 4 \<or> length (split sep s ! 0) = 4)")
    case False
    then have "manual_parse (sep # seps) s = manual_parse seps s"
      by (auto simp: Let_def)
    with Cons show ?thesis by simp
  next
    case True
    then have three: "length (split sep s) = 3" by simp
    have len: "length (split sep s ! 0) \<le> 9" "length (split sep s ! 1) \<le> 9"
        "length (split sep s ! 2) \<le> 9"
      using split_part_length[OF three, of 0] split_part_length[OF three, of 1]
        split_part_length[OF three, of 2] Cons.prems by simp_all
    have a: "\<exists>r. build_date (split sep s ! 0) (split sep s ! 1) (split sep s ! 2)
                 (\<lambda>d m y. datetime_new y m d) = Inr r"
      using len by (rule build_date_no_raise) (rule datetime_new_fits)
    have b: "\<exists>r. build_date (split sep s ! 0) (split sep s ! 1) (split sep s ! 2)
                 (\<lambda>y m d. datetime_new y m d) = Inr r"
      using len by (rule build_date_no_raise) (rule datetime_new_fits)
    from True a b show ?thesis by (auto simp: Let_def)
  qed
qed

lemma manual_parse_no_sep:
  "47 \<notin> set s \<Longrightarrow> 45 \<notin> set s \<Longrightarrow> 46 \<notin> set s \<Longrightarrow> manual_parse [47, 45, 46] s = Inr None"
  by simp

lemma arabic_month_range:
  "map_of ARABIC_MONTHS k = Some m \<Longrightarrow> 1 \<le> m \<and> m \<le> 12"
proof -
  assume "map_of ARABIC_MONTHS k = Some m"
  then have "(k, m) \<in> set ARABIC_MONTHS" by (rule map_of_SomeD)
  then have "m \<in> set (map snd ARABIC_MONTHS)" by force
  moreover have "set (map snd ARABIC_MONTHS) \<subseteq> {1..12}"
    by (simp add: ARABIC_MONTHS_def)
  ultimately show ?thesis by auto
qed

lemma arabic_groups:
  assumes "list_all2 piece_ok (map fst arabic_pattern) ps"
  shows "length (group arabic_pattern ps 1) \<le> 2 \<and> length (group arabic_pattern ps 3) \<le> 4"
  using group_length_le[OF assms, of 1] group_length_le[OF assms, of 3]
  by (simp add: arabic_pattern_def)

lemma parse_arabic_no_raise:
  "parse_arabic s \<noteq> Some (Inl e)"
proof
  assume a: "parse_arabic s = Some (Inl e)"
  then obtain ps where ps: "search arabic_pattern s = Some ps"
    by (auto simp: parse_arabic_def split: option.splits)
  then obtain s' rest where "try_atoms arabic_pattern s' = Some (ps, rest)"
    using search_sound by blast
  then have "list_all2 piece_ok (map fst arabic_pattern) ps"
    using try_atoms_sound by blast
  then have g: "length (group arabic_pattern ps 1) \<le> 2" "length (group arabic_pattern ps 3) \<le> 4"
    using arabic_groups by simp_all
  from a ps obtain m y d where v: "map_of ARABIC_MONTHS (group arabic_pattern ps 2) = Some m"
      "py_int (group arabic_pattern ps 3) = Some y" "py_int (group arabic_pattern ps 1) = Some d"
      "datetime_new y m d = Inl e" "e \<noteq> ValueError"
    by (auto simp: parse_arabic_def split: option.splits if_splits sum.splits)
  have "fits_c_int y" "fits_c_int d" using v(2,3) g by (auto intro: py_int_fits)
  moreover have "fits_c_int m" using arabic_month_range[OF v(1)] by (simp add: fits_c_int_def)
  ultimately have "e = ValueError" using v(4) datetime_new_fits by blast
  with v(5) show False by simp
qed

lemma strptime_pattern_no_raise:
  assumes pat: "format_pattern f = Some pat"
    and bounded: "\<forall>a \<in> set pat. snd a \<noteq> 0 \<longrightarrow> atom_bounded (fst a)"
    and small: "\<forall>k \<in> {1, 2, 3}. sum_list (map (\<lambda>a. atom_max (fst a)) (filter (\<lambda>a. snd a = k) pat)) \<le> 9"
    and r: "strptime s f = Inl e"
  shows "e = ValueError"
proof (rule ccontr)
  assume ne: "e \<noteq> ValueError"
  from r pat ne obtain ps rest y m d where v: "try_atoms pat s = Some (ps, rest)"
      "py_int (group pat ps 3) = Some y" "py_int (group pat ps 2) = Some m"
      "py_int (group pat ps 1) = Some d" "datetime_new y m d = Inl e"
    by (auto simp: strptime_def split: option.splits if_splits)
  from v(1) have ok: "list_all2 piece_ok (map fst pat) ps" using try_atoms_sound by blast
  have "length (group pat ps k) \<le> 9" if "k \<in> {1, 2, 3}" for k
  proof -
    have "\<forall>a \<in> set pat. snd a = k \<longrightarrow> atom_bounded (fst a)" using bounded that by auto
    from group_length_le[OF ok this] small that show ?thesis by force
  qed
  then have "fits_c_int y" "fits_c_int m" "fits_c_int d"
    using v(2,3,4) by (auto intro: py_int_fits)
  with v(5) have "e = ValueError" using datetime_new_fits by blast
  with ne show False by simp
qed

lemma is_space_seps: "\<not> is_space 47" "\<not> is_space 45" "\<not> is_space 46"
  by (simp_all add: is_space_def space_chars_def)

lemma atom_max_directives: "atom_max re_d = 2" "atom_max re_m = 2" "atom_max re_Y = 4"
  by (simp_all add: re_d_def re_m_def re_Y_def)

lemma format_patterns:
  "format_pattern (ascii ''%d/%m/%Y'') = Some [(re_d, 1), (lit [47], 0), (re_m, 2), (lit [47], 0), (re_Y, 3)]"
  "format_pattern (ascii ''%d-%m-%Y'') = Some [(re_d, 1), (lit [45], 0), (re_m, 2), (lit [45], 0), (re_Y, 3)]"
  "format_pattern (ascii ''%Y/%m/%d'') = Some [(re_Y, 3), (lit [47], 0), (re_m, 2), (lit [47], 0), (re_d, 1)]"
  "format_pattern (ascii ''%Y-%m-%d'') = Some [(re_Y, 3), (lit [45], 0), (re_m, 2), (lit [45], 0), (re_d, 1)]"
  "format_pattern (ascii ''%d.%m.%Y'') = Some [(re_d, 1), (lit [46], 0), (re_m, 2), (lit [46], 0), (re_Y, 3)]"
  "format_pattern (ascii ''%-d/%-m/%Y'') = None"
  "format_pattern (ascii ''%#d/%#m/%Y'') = None"
  by (simp_all add: ascii_def directive_def is_space_seps)

lemma strptime_no_raise:
  assumes "f \<in> set DATE_FORMATS" and "strptime s f = Inl e"
  shows "e = ValueError"
proof -
  have none: "format_pattern f = None \<Longrightarrow> e = ValueError"
    using assms(2) by (simp add: strptime_def)
  have some: "format_pattern f = Some pat \<Longrightarrow>
      \<forall>a \<in> set pat. snd a \<noteq> 0 \<longrightarrow> atom_bounded (fst a) \<Longrightarrow>
      \<forall>k \<in> {1, 2, 3}. sum_list (map (\<lambda>a. atom_max (fst a)) (filter (\<lambda>a. snd a = k) pat)) \<le> 9 \<Longrightarrow>
      e = ValueError" for pat
    using strptime_pattern_no_raise assms(2) by blast
  have b: "atom_bounded re_d" "atom_bounded re_m" "atom_bounded re_Y"
    by (simp_all add: re_d_def re_m_def re_Y_def)
  from assms(1) consider "f = ascii ''%d/%m/%Y''" | "f = ascii ''%d-%m-%Y''" | "f = ascii ''%Y/%m/%d''"
    | "f = ascii ''%Y-%m-%d''" | "f = ascii ''%d.%m.%Y''" | "f = ascii ''%-d/%-m/%Y''"
    | "f = ascii ''%#d/%#m/%Y''"
    by (auto simp: DATE_FORMATS_def)
  then show ?thesis
  proof cases
    case 1
    show ?thesis by (rule some[OF format_patterns(1)[folded 1]]) (simp_all add: b atom_max_directives)
  next
    case 2
    show ?thesis by (rule some[OF format_patterns(2)[folded 2]]) (simp_all add: b atom_max_directives)
  next
    case 3
    show ?thesis by (rule some[OF format_patterns(3)[folded 3]]) (simp_all add: b atom_max_directives)
  next
    case 4
    show ?thesis by (rule some[OF format_patterns(4)[folded 4]]) (simp_all add: b atom_max_directives)
  next
    case 5
    show ?thesis by (rule some[OF format_patterns(5)[folded 5]]) (simp_all add: b atom_max_directives)
  next
    case 6
    show ?thesis by (rule none) (simp add: 6 format_patterns)
  next
    case 7
    show ?thesis by (rule none) (simp add: 7 format_patterns)
  qed
qed

lemma try_formats_no_raise:
  "set fs \<subseteq> set DATE_FORMATS \<Longrightarrow> try_formats fs s \<noteq> Some (Inl e)"
proof (induction fs)
  case Nil
  show ?case by simp
next
  case (Cons f fs)
  then have f: "f \<in> set DATE_FORMATS" and ih: "try_formats fs s \<noteq> Some (Inl e)" by simp_all
  show ?case
  proof (cases "strptime s f")
    case (Inl e')
    with strptime_no_raise[OF f] have "e' = ValueError" by simp
    with Inl ih show ?thesis by simp
  next
    case (Inr t)
    then show ?thesis by simp
  qed
qed

lemma parse_date_no_raise:
  assumes "length s \<le> 11 \<or> (47 \<notin> set s \<and> 45 \<notin> set s \<and> 46 \<notin> set s)"
  shows "\<exists>r. parse_date s = Inr r"
proof (cases "s = []")
  case True
  then show ?thesis by (simp add: parse_date_def)
next
  case False
  have m: "\<exists>r. manual_parse [47, 45, 46] (strip s) = Inr r"
  proof (cases "length s \<le> 11")
    case True
    then have "length (strip s) \<le> 11" using strip_length[of s] by simp
    then show ?thesis by (rule manual_parse_short)
  next
    case False
    with assms have "47 \<notin> set (strip s)" "45 \<notin> set (strip s)" "46 \<notin> set (strip s)"
      using strip_set[of s] by auto
    then show ?thesis using manual_parse_no_sep by blast
  qed
  have a: "parse_arabic (strip s) \<noteq> Some (Inl e)" for e by (rule parse_arabic_no_raise)
  have t: "try_formats DATE_FORMATS (strip s) \<noteq> Some (Inl e)" for e
    by (rule try_formats_no_raise) simp
  show ?thesis
  proof (cases "parse_arabic (strip s)")
    case (Some r)
    with a obtain d where "r = Inr d" by (cases r) auto
    with Some False show ?thesis by (simp add: parse_date_def)
  next
    case None
    show ?thesis
    proof (cases "try_formats DATE_FORMATS (strip s)")
      case (Some r)
      with t obtain d where "r = Inr d" by (cases r) auto
      with Some None False show ?thesis by (simp add: parse_date_def)
    next
      case n2: None
      with None False m show ?thesis by (simp add: parse_date_def Let_def del: manual_parse.simps)
    qed
  qed
qed

lemma validate_date_no_raise:
  "scannable s \<Longrightarrow> \<exists>v e p. validate_date s = Inr (v, e, p)"
proof -
  assume "scannable s"
  then obtain r where "parse_date s = Inr r"
    using parse_date_no_raise[of s] by (auto simp: scannable_def)
  then show ?thesis by (cases r) (auto simp: validate_date_def)
qed

lemma validate_date_True:
  "validate_date s = Inr (True, e, p) \<Longrightarrow>
     e = [] \<and> (\<exists>t. p = Some t \<and> parse_date s = Inr (Some t) \<and> 1900 \<le> year t \<and> year t \<le> 2100)"
  by (auto simp: validate_date_def split: sum.splits option.splits if_splits)

lemma validate_date_range_no_raise:
  assumes "scannable s" "scannable e"
  shows "\<exists>v m. validate_date_range ref s e ap mn mx = Inr (v, m)"
proof -
  obtain v1 e1 p1 where s: "validate_date s = Inr (v1, e1, p1)"
    using validate_date_no_raise[OF assms(1)] by blast
  obtain v2 e2 p2 where e: "validate_date e = Inr (v2, e2, p2)"
    using validate_date_no_raise[OF assms(2)] by blast
  show ?thesis
  proof (cases "v1 \<and> v2")
    case False
    with s e show ?thesis by (auto simp: validate_date_range_def)
  next
    case True
    from True s have "\<exists>t. p1 = Some t" using validate_date_True[of s e1 p1] by auto
    moreover from True e have "\<exists>t. p2 = Some t" using validate_date_True[of e e2 p2] by auto
    ultimately obtain t1 t2 where "p1 = Some t1" "p2 = Some t2" by blast
    with True s e show ?thesis by (auto simp: validate_date_range_def Let_def)
  qed
qed

lemma not_decimal_seps: "\<not> is_decimal 47" "\<not> is_decimal 45" "\<not> is_decimal 46"
  by (simp_all add: is_decimal_def decimal_value_def nd_zeros_def)

lemma date_pattern_matches_scannable:
  assumes "pat \<in> set date_patterns" and "try_atoms pat s' = Some (ps, rest)"
  shows "scannable (concat ps)"
proof -
  have ok: "list_all2 piece_ok (map fst pat) ps" using assms(2) try_atoms_sound by blast
  from assms(1) consider "pat = dmy_atoms 0" | "pat = ymd_atoms" | "pat = arabic_date_atoms"
    by (auto simp: date_patterns_def)
  then show ?thesis
  proof cases
    case 1
    have "length (concat ps) \<le> sum_list (map (\<lambda>a. atom_max (fst a)) pat)"
      using ok by (rule concat_length_le) (simp add: 1 dmy_atoms_def)
    then show ?thesis by (simp add: 1 dmy_atoms_def scannable_def)
  next
    case 2
    have "length (concat ps) \<le> sum_list (map (\<lambda>a. atom_max (fst a)) pat)"
      using ok by (rule concat_length_le) (simp add: 2 ymd_atoms_def)
    then show ?thesis by (simp add: 2 ymd_atoms_def scannable_def)
  next
    case 3
    have "c \<noteq> 47 \<and> c \<noteq> 45 \<and> c \<noteq> 46" if "c \<in> set (concat ps)" for c
    proof -
      from concat_chars[OF ok that] have "is_decimal c \<or> is_space c \<or> is_arabic_letter c"
        by (auto simp: 3 arabic_date_atoms_def)
      then show ?thesis
        using not_decimal_seps is_space_seps by (auto simp: is_arabic_letter_def)
    qed
    then show ?thesis by (auto simp: scannable_def)
  qed
qed

lemma date_matches_scannable:
  "d \<in> set (date_matches txt) \<Longrightarrow> scannable d"
proof -
  assume "d \<in> set (date_matches txt)"
  then obtain pat ps where p: "pat \<in> set date_patterns" "ps \<in> set (finditer pat txt)" "d = concat ps"
    by (auto simp: date_matches_def)
  from p(2) have "ps \<in> set (finditer_from pat 0 txt)" by (simp add: finditer_def)
  then obtain s' rest where "try_atoms pat s' = Some (ps, rest)"
    using finditer_from_sound by blast
  with p(1,3) show ?thesis using date_pattern_matches_scannable by blast
qed

lemma range_pattern_groups:
  assumes "pat \<in> set range_patterns" and ok: "list_all2 piece_ok (map fst pat) ps"
  shows "length (group pat ps 1) \<le> 10 \<and> length (group pat ps 2) \<le> 10"
proof -
  have b: "\<forall>a \<in> set pat. snd a = k \<longrightarrow> atom_bounded (fst a)" if "k = 1 \<or> k = 2" for k
    using assms(1) that by (auto simp: range_patterns_def dmy_atoms_def spaces1_def)
  have s: "sum_list (map (\<lambda>a. atom_max (fst a)) (filter (\<lambda>a. snd a = k) pat)) \<le> 10"
    if "k = 1 \<or> k = 2" for k
    using assms(1) that by (auto simp: range_patterns_def dmy_atoms_def spaces1_def)
  show ?thesis
    using group_length_le[OF ok b[of 1]] group_length_le[OF ok b[of 2]] s[of 1] s[of 2] by simp
qed

lemma range_matches_scannable:
  "(a, b) \<in> set (range_matches txt) \<Longrightarrow> scannable a \<and> scannable b"
proof -
  assume "(a, b) \<in> set (range_matches txt)"
  then obtain pat ps where p: "pat \<in> set range_patterns" "ps \<in> set (finditer pat txt)"
      "a = group pat ps 1" "b = group pat ps 2"
    by (auto simp: range_matches_def)
  from p(2) have "ps \<in> set (finditer_from pat 0 txt)" by (simp add: finditer_def)
  then obtain s' rest where "try_atoms pat s' = Some (ps, rest)"
    using finditer_from_sound by blast
  then have "list_all2 piece_ok (map fst pat) ps" using try_atoms_sound by blast
  from range_pattern_groups[OF p(1) this] p(3,4) show ?thesis by (simp add: scannable_def)
qed

lemma mapM_exn_total:
  "(\<And>x. x \<in> set xs \<Longrightarrow> \<exists>y. f x = Inr y) \<Longrightarrow> \<exists>ys. mapM_exn f xs = Inr ys"
proof (induction xs)
  case Nil
  show ?case by simp
next
  case (Cons x xs)
  then obtain y ys where "f x = Inr y" "mapM_exn f xs = Inr ys" by (meson list.set_intros)
  then show ?case by simp
qed

lemma mapM_exn_results:
  "mapM_exn f xs = Inr ys \<Longrightarrow> list_all2 (\<lambda>x y. f x = Inr y) xs ys"
proof (induction xs arbitrary: ys)
  case Nil
  then show ?case by simp
next
  case (Cons x xs)
  then show ?case by (auto split: sum.splits)
qed

lemma contains_mid: "contains (a @ p @ b) p"
proof (induction a)
  case Nil
  have t: "take (length p) (p @ b) = p" by simp
  show ?case
  proof (cases "p @ b")
    case Nil
    then show ?thesis by simp
  next
    case (Cons c cs)
    have "contains (c # cs) p" using t unfolding Cons by simp
    then show ?thesis using Cons by simp
  qed
next
  case (Cons x a)
  then show ?case by simp
qed

lemma join_mid: "e \<in> set es \<Longrightarrow> \<exists>a b. join sep es = a @ e @ b"
proof (induction sep es rule: join.induct)
  case (1 sep)
  then show ?case by simp
next
  case (2 sep x)
  then have "join sep [x] = [] @ e @ []" by simp
  then show ?case by blast
next
  case (3 sep x y ys)
  show ?case
  proof (cases "e = x")
    case True
    then have "join sep (x # y # ys) = [] @ e @ (sep @ join sep (y # ys))" by simp
    then show ?thesis by blast
  next
    case False
    with 3 obtain a b where "join sep (y # ys) = a @ e @ b" by auto
    then have "join sep (x # y # ys) = (x @ sep @ a) @ e @ b" by simp
    then show ?thesis by blast
  qed
qed

lemma join_contains: "e \<in> set es \<Longrightarrow> contains (join sep es) e"
  using join_mid[of e es sep] contains_mid by metis

section \<open>\<open>parse_date\<close> returns only dates of the calendar\<close>

lemma parse_arabic_built:
  "parse_arabic s = Some (Inr t) \<Longrightarrow> \<exists>y m d. datetime_new y m d = Inr t"
  by (auto simp: parse_arabic_def split: option.splits if_splits sum.splits)

lemma strptime_built:
  "strptime s f = Inr t \<Longrightarrow> \<exists>y m d. datetime_new y m d = Inr t"
  by (auto simp: strptime_def split: option.splits if_splits; blast)

lemma try_formats_built:
  "try_formats fs s = Some (Inr t) \<Longrightarrow> \<exists>y m d. datetime_new y m d = Inr t"
proof (induction fs)
  case Nil
  then show ?case by simp
next
  case (Cons f fs)
  show ?case
  proof (cases "strptime s f")
    case (Inl e)
    with Cons show ?thesis by (auto split: if_splits)
  next
    case (Inr t')
    with Cons.prems have "t' = t" by simp
    with Inr strptime_built show ?thesis by blast
  qed
qed

lemma build_date_built:
  "build_date p0 p1 p2 mk = Inr (Some t) \<Longrightarrow> \<exists>a b c. mk a b c = Inr t"
  by (auto simp: build_date_def split: option.splits sum.splits if_splits)

lemma manual_parse_built:
  "manual_parse seps s = Inr (Some t) \<Longrightarrow> \<exists>y m d. datetime_new y m d = Inr t"
proof (induction seps)
  case Nil
  then show ?case by simp
next
  case (Cons sep seps)
  let ?p = "split sep s"
  show ?case
  proof (cases "sep \<in> set s \<and> length ?p = 3")
    case False
    then have "manual_parse (sep # seps) s = manual_parse seps s" by (auto simp: Let_def)
    with Cons show ?thesis by simp
  next
    case True
    show ?thesis
    proof (cases "length (?p ! 2) = 4")
      case dmy: True
      with True Cons.prems
      have "build_date (?p ! 0) (?p ! 1) (?p ! 2) (\<lambda>d m y. datetime_new y m d) = Inr (Some t)"
        by (simp add: Let_def)
      from build_date_built[OF this] show ?thesis by blast
    next
      case ndmy: False
      show ?thesis
      proof (cases "length (?p ! 0) = 4")
        case ymd: True
        with True ndmy Cons.prems
        have "build_date (?p ! 0) (?p ! 1) (?p ! 2) (\<lambda>y m d. datetime_new y m d) = Inr (Some t)"
          by (simp add: Let_def)
        from build_date_built[OF this] show ?thesis by blast
      next
        case False
        with True ndmy have "manual_parse (sep # seps) s = manual_parse seps s"
          by (simp add: Let_def)
        with Cons show ?thesis by simp
      qed
    qed
  qed
qed

lemma parse_date_built:
  assumes "parse_date s = Inr (Some t)"
  shows "\<exists>y m d. datetime_new y m d = Inr t"
proof -
  from assms have ne: "s \<noteq> []" by (auto simp: parse_date_def)
  show ?thesis
  proof (cases "parse_arabic (strip s)")
    case (Some r)
    with assms ne have "r = Inr t" by (cases r) (auto simp: parse_date_def)
    with Some parse_arabic_built show ?thesis by blast
  next
    case None
    show ?thesis
    proof (cases "try_formats DATE_FORMATS (strip s)")
      case (Some r)
      with assms ne None have "r = Inr t" by (cases r) (auto simp: parse_date_def)
      with Some try_formats_built show ?thesis by blast
    next
      case n2: None
      with assms ne None have "manual_parse [47, 45, 46] (strip s) = Inr (Some t)"
        by (simp add: parse_date_def Let_def del: manual_parse.simps)
      then show ?thesis by (rule manual_parse_built)
    qed
  qed
qed

lemma parse_date_valid:
  assumes "parse_date s = Inr (Some t)"
  shows "is_valid_date (day t) (month t) (year t)"
    and "hour t = 0 \<and> minute t = 0 \<and> second t = 0 \<and> microsecond t = 0"
    and "1 \<le> year t \<and> year t \<le> 9999"
proof -
  obtain y m d where "datetime_new y m d = Inr t" using parse_date_built[OF assms] by blast
  from datetime_new_valid[OF this]
  show "is_valid_date (day t) (month t) (year t)"
    and "hour t = 0 \<and> minute t = 0 \<and> second t = 0 \<and> microsecond t = 0"
    and "1 \<le> year t \<and> year t \<le> 9999"
    by simp_all
qed

lemma validate_date_of_parse:
  "validate_date s =
     (case parse_date s of
        Inl e \<Rightarrow> Inl e
      | Inr None \<Rightarrow> Inr (False, ascii ''Invalid date format: '' @ s, None)
      | Inr (Some t) \<Rightarrow>
          if 1900 \<le> year t \<and> year t \<le> 2100 then Inr (True, [], Some t)
          else Inr (False, ascii ''Year out of reasonable range: '' @ py_str (year t), None))"
proof (cases "parse_date s")
  case (Inl e)
  then show ?thesis by (simp add: validate_date_def)
next
  case (Inr r)
  show ?thesis
  proof (cases r)
    case None
    with Inr show ?thesis by (simp add: validate_date_def)
  next
    case (Some t)
    with Inr have "is_valid_date (day t) (month t) (year t)" using parse_date_valid(1) by simp
    with Inr Some show ?thesis by (simp add: validate_date_def)
  qed
qed

section \<open>Ordinals of dates\<close>

lemma div_pred:
  fixes y k :: int
  assumes "0 < k"
  shows "(y - 1) div k = (if y mod k = 0 then y div k - 1 else y div k)"
proof (cases "y mod k = 0")
  case True
  have "k * (y div k) = y" using True by auto
  then have eq: "y - 1 = k * (y div k - 1) + (k - 1)" by (simp add: algebra_simps)
  have "(y - 1) div k = y div k - 1"
    by (rule int_div_pos_eq[OF eq]) (use assms in simp_all)
  with True show ?thesis by simp
next
  case False
  have m: "0 \<le> y mod k" "y mod k < k" using assms by simp_all
  have eq: "y - 1 = k * (y div k) + (y mod k - 1)" by simp
  have "(y - 1) div k = y div k"
    by (rule int_div_pos_eq[OF eq]) (use False m in simp_all)
  with False show ?thesis by simp
qed

lemma days_before_year_Suc:
  "days_before_year (y + 1) = days_before_year y + (if isleap y then 366 else 365)"
proof -
  have m: "y mod 400 = 0 \<Longrightarrow> y mod 100 = 0" "y mod 100 = 0 \<Longrightarrow> y mod 4 = 0"
    by presburger+
  show ?thesis
    unfolding days_before_year_def isleap_def
    using m by (auto simp: div_pred[of 4 y] div_pred[of 100 y] div_pred[of 400 y])
qed

lemma days_before_year_mono: "y \<le> y' \<Longrightarrow> days_before_year y \<le> days_before_year y'"
proof (induction y' rule: int_ge_induct)
  case base
  show ?case by simp
next
  case (step i)
  then show ?case using days_before_year_Suc[of i] by (simp split: if_splits)
qed

lemma month_cases:
  "1 \<le> m \<Longrightarrow> m \<le> 12 \<Longrightarrow>
     m = 1 \<or> m = 2 \<or> m = 3 \<or> m = 4 \<or> m = 5 \<or> m = 6 \<or> m = 7 \<or> m = 8 \<or> m = 9 \<or> m = 10
       \<or> m = 11 \<or> m = (12::int)"
  by arith

lemma days_before_month_next:
  assumes "1 \<le> m" "m \<le> 12" "monthrange_days y m = Inr dim"
  shows "days_before_month y m + dim = (if m = 12 then (if isleap y then 366 else 365) else days_before_month y (m + 1))"
  using month_cases[OF assms(1,2)] assms(3)
  by (auto simp: days_before_month_def days_before_month_tab_def monthrange_days_def mdays_def)

lemma days_before_month_step:
  assumes "1 \<le> m" "m + 1 \<le> 12"
  shows "days_before_month y m \<le> days_before_month y (m + 1)"
proof -
  have "m \<le> 12" using assms by simp
  from month_cases[OF assms(1) this] assms(2) show ?thesis
    by (auto simp: days_before_month_def days_before_month_tab_def)
qed

lemma days_before_month_mono:
  "m \<le> m' \<Longrightarrow> 1 \<le> m \<Longrightarrow> m' \<le> 12 \<Longrightarrow> days_before_month y m \<le> days_before_month y m'"
proof (induction m' rule: int_ge_induct)
  case base
  show ?case by simp
next
  case (step i)
  then have "days_before_month y m \<le> days_before_month y i" by simp
  moreover have "days_before_month y i \<le> days_before_month y (i + 1)"
    using step by (intro days_before_month_step) simp_all
  ultimately show ?case by simp
qed

lemma days_before_month_nonneg: "1 \<le> m \<Longrightarrow> m \<le> 12 \<Longrightarrow> 0 \<le> days_before_month y m"
  using month_cases[of m]
  by (auto simp: days_before_month_def days_before_month_tab_def)

lemma is_valid_dateD:
  "is_valid_date d m y \<Longrightarrow> 1 \<le> m \<and> m \<le> 12 \<and> 1 \<le> d \<and> (\<exists>dim. monthrange_days y m = Inr dim \<and> d \<le> dim)"
  by (auto simp: is_valid_date_def split: if_splits sum.splits)

lemma day_of_year_bounds:
  assumes "is_valid_date d m y"
  shows "1 \<le> days_before_month y m + d"
    and "days_before_month y m + d \<le> (if isleap y then 366 else 365)"
proof -
  from is_valid_dateD[OF assms] obtain dim where v: "1 \<le> m" "m \<le> 12" "1 \<le> d"
      "monthrange_days y m = Inr dim" "d \<le> dim" by blast
  show "1 \<le> days_before_month y m + d" using days_before_month_nonneg[OF v(1,2), of y] v(3) by simp
  have "days_before_month y m + d \<le> days_before_month y m + dim" using v(5) by simp
  also have "\<dots> \<le> (if isleap y then 366 else 365)"
  proof (cases "m = 12")
    case True
    then show ?thesis using days_before_month_next[OF v(1,2,4)] by simp
  next
    case False
    then have m1: "m + 1 \<le> 12" "1 \<le> m + 1" using v(1,2) by simp_all
    have "days_before_month y (m + 1) \<le> days_before_month y 12"
      using m1 by (intro days_before_month_mono) simp_all
    moreover have "days_before_month y 12 \<le> (if isleap y then 335 else 334)"
      by (simp add: days_before_month_def days_before_month_tab_def)
    ultimately show ?thesis using days_before_month_next[OF v(1,2,4)] False
      by (simp split: if_splits)
  qed
  finally show "days_before_month y m + d \<le> (if isleap y then 366 else 365)" .
qed

lemma toordinal_mono:
  assumes va: "is_valid_date (day a) (month a) (year a)"
    and vb: "is_valid_date (day b) (month b) (year b)"
    and less: "ymd_less a b"
  shows "toordinal a < toordinal b"
proof -
  from is_valid_dateD[OF va] obtain dima where a: "1 \<le> month a" "month a \<le> 12" "1 \<le> day a"
      "monthrange_days (year a) (month a) = Inr dima" "day a \<le> dima" by blast
  from is_valid_dateD[OF vb] obtain dimb where b: "1 \<le> month b" "month b \<le> 12" "1 \<le> day b"
      "monthrange_days (year b) (month b) = Inr dimb" "day b \<le> dimb" by blast
  from less consider (y) "year a < year b" | (m) "year a = year b" "month a < month b"
    | (d) "year a = year b" "month a = month b" "day a < day b"
    by (auto simp: ymd_less_def)
  then show ?thesis
  proof cases
    case y
    have "toordinal a \<le> days_before_year (year a) + (if isleap (year a) then 366 else 365)"
      using day_of_year_bounds(2)[OF va] by (simp add: toordinal_def)
    also have "\<dots> = days_before_year (year a + 1)" by (simp add: days_before_year_Suc)
    also have "\<dots> \<le> days_before_year (year b)" using y by (intro days_before_year_mono) simp
    also have "\<dots> < toordinal b" using day_of_year_bounds(1)[OF vb] by (simp add: toordinal_def)
    finally show ?thesis .
  next
    case m
    then have ne: "month a \<noteq> 12" using b(2) by simp
    have "days_before_month (year a) (month a) + day a \<le> days_before_month (year a) (month a) + dima"
      using a(5) by simp
    also have "\<dots> = days_before_month (year a) (month a + 1)"
      using days_before_month_next[OF a(1,2,4)] ne by simp
    also have "\<dots> \<le> days_before_month (year a) (month b)"
      using m(2) a(1) b(2) by (intro days_before_month_mono) simp_all
    finally show ?thesis using m(1) b(3) by (simp add: toordinal_def)
  next
    case d
    then show ?thesis by (simp add: toordinal_def)
  qed
qed

lemma dt_less_midnight:
  assumes "hour a = 0 \<and> minute a = 0 \<and> second a = 0 \<and> microsecond a = 0"
    and "hour b = 0 \<and> minute b = 0 \<and> second b = 0 \<and> microsecond b = 0"
  shows "dt_less a b \<longleftrightarrow> ymd_less a b"
  using assms by (auto simp: dt_less_def dt_fields_def ymd_less_def)

lemma timedelta_days_midnight:
  assumes "hour a = 0 \<and> minute a = 0 \<and> second a = 0 \<and> microsecond a = 0"
    and "hour b = 0 \<and> minute b = 0 \<and> second b = 0 \<and> microsecond b = 0"
  shows "timedelta_days b a = toordinal b - toordinal a"
proof -
  have "total_microseconds b - total_microseconds a = (toordinal b - toordinal a) * 86400000000"
    using assms by (simp add: total_microseconds_def algebra_simps)
  then show ?thesis by (simp add: timedelta_days_def)
qed

lemma dt_less_not_le: "dt_less a b \<Longrightarrow> \<not> dt_le b a"
proof -
  have l: "lex_less xs ys \<Longrightarrow> \<not> lex_less ys xs \<and> xs \<noteq> ys" for xs ys
    by (induction xs ys rule: lex_less.induct) auto
  assume "dt_less a b"
  then show ?thesis using l[of "dt_fields a" "dt_fields b"]
    by (auto simp: dt_less_def dt_le_def)
qed

lemma dt_not_le_less: "\<not> dt_le b a \<Longrightarrow> dt_less a b"
  by (auto simp: dt_less_def dt_le_def dt_fields_def)

section \<open>Facts about the scan\<close>

lemma findings_of_results:
  "list_all2 (\<lambda>x y. validate_date x = Inr y) ds rs \<Longrightarrow>
     map f_text (map2 mk_finding ds rs) = ds
       \<and> (\<forall>f \<in> set (map2 mk_finding ds rs).
             validate_date (f_text f) = Inr (f_valid f, f_error f, f_parsed f))"
  by (induction ds rs rule: list_all2_induct) (auto simp: mk_finding_def)

lemma range_results:
  assumes "list_all2 (\<lambda>x y. f x = Inr y) xs ys"
  shows "x \<in> set xs \<Longrightarrow> f x = Inr (False, err) \<Longrightarrow> err \<in> set (map snd (filter (\<lambda>r. \<not> fst r) ys))"
    and "(map snd (filter (\<lambda>r. \<not> fst r) ys) = []) \<longleftrightarrow> (\<forall>x \<in> set xs. \<exists>m. f x = Inr (True, m))"
  using assms by (induction xs ys rule: list_all2_induct) auto

lemma validate_date_range_True:
  "validate_date_range ref s e ap mn mx = Inr (True, m) \<Longrightarrow> m = []"
  by (auto simp: validate_date_range_def Let_def
        split: sum.splits if_splits option.splits prod.splits)

lemma extract_total:
  "\<exists>ok msg found. extract_and_validate_dates ref txt allow_past = Inr (ok, msg, found)
      \<and> (ok \<longrightarrow> msg = [])"
proof -
  let ?chk = "\<lambda>(s, e). validate_date_range ref s e allow_past 1 36500"
  have "\<exists>rs. mapM_exn validate_date (date_matches txt) = Inr rs"
  proof (rule mapM_exn_total)
    fix x assume "x \<in> set (date_matches txt)"
    then have "scannable x" by (rule date_matches_scannable)
    from validate_date_no_raise[OF this] show "\<exists>y. validate_date x = Inr y" by auto
  qed
  then obtain rs where rs: "mapM_exn validate_date (date_matches txt) = Inr rs" by blast
  have "\<exists>rr. mapM_exn ?chk (range_matches txt) = Inr rr"
  proof (rule mapM_exn_total)
    fix x assume x: "x \<in> set (range_matches txt)"
    obtain s e where se: "x = (s, e)" by (cases x)
    with x have "scannable s \<and> scannable e" using range_matches_scannable by blast
    then obtain v m where "validate_date_range ref s e allow_past 1 36500 = Inr (v, m)"
      using validate_date_range_no_raise[of s e ref allow_past 1 36500] by blast
    then show "\<exists>y. ?chk x = Inr y" using se by simp
  qed
  then obtain rr where rr: "mapM_exn ?chk (range_matches txt) = Inr rr" by blast
  show ?thesis using rs rr by (auto simp: extract_and_validate_dates_def Let_def)
qed

lemma validate_date_range_valid:
  assumes "validate_date_range ref s e ap mn mx = Inr (True, m)"
  shows "\<exists>a b. parse_date s = Inr (Some a) \<and> parse_date e = Inr (Some b)
           \<and> dt_less a b \<and> (ap \<or> \<not> dt_less a ref)
           \<and> mn \<le> timedelta_days b a \<and> timedelta_days b a \<le> mx"
proof -
  from assms obtain es ps where vs: "validate_date s = Inr (True, es, ps)"
    by (auto simp: validate_date_range_def split: sum.splits if_splits prod.splits)
  from assms vs obtain ee pe where ve: "validate_date e = Inr (True, ee, pe)"
    by (auto simp: validate_date_range_def split: sum.splits if_splits prod.splits)
  from validate_date_True[OF vs] obtain a where a: "ps = Some a" "parse_date s = Inr (Some a)" by blast
  from validate_date_True[OF ve] obtain b where b: "pe = Some b" "parse_date e = Inr (Some b)" by blast
  from assms vs ve a(1) b(1)
  have "\<not> (\<not> ap \<and> dt_less a ref) \<and> \<not> dt_le b a
        \<and> \<not> timedelta_days b a < mn \<and> \<not> timedelta_days b a > mx"
    by (auto simp: validate_date_range_def Let_def split: if_splits)
  then show ?thesis using a(2) b(2) dt_not_le_less[of b a] by auto
qed

lemma scan_all_valid:
  assumes "extract_and_validate_dates ref txt ap = Inr (True, msg, found)"
  shows "\<forall>d \<in> set (date_matches txt). \<exists>t. validate_date d = Inr (True, [], Some t)"
    and "\<forall>(s, e) \<in> set (range_matches txt).
            validate_date_range ref s e ap 1 36500 = Inr (True, [])"
proof -
  let ?ds = "date_matches txt"
  let ?chk = "\<lambda>(s, e). validate_date_range ref s e ap 1 36500"
  from assms obtain rs where rs: "mapM_exn validate_date ?ds = Inr rs"
    by (auto simp: extract_and_validate_dates_def split: sum.splits)
  define fd where "fd = map2 mk_finding ?ds rs"
  have f12: "map f_text fd = ?ds
       \<and> (\<forall>f \<in> set fd. validate_date (f_text f) = Inr (f_valid f, f_error f, f_parsed f))"
    unfolding fd_def by (rule findings_of_results) (rule mapM_exn_results[OF rs])
  have noerr: "filter (\<lambda>f. \<not> f_valid f) fd = []"
    using assms rs
    by (auto simp: extract_and_validate_dates_def Let_def fd_def split: if_splits sum.splits)
  show "\<forall>d \<in> set ?ds. \<exists>t. validate_date d = Inr (True, [], Some t)"
  proof
    fix d assume "d \<in> set ?ds"
    with f12 have "d \<in> f_text ` set fd" by (metis set_map)
    then obtain f where f: "f \<in> set fd" "f_text f = d" by auto
    from noerr f(1) have "f_valid f" by (auto simp: filter_empty_conv)
    with f12 f have v: "validate_date d = Inr (True, f_error f, f_parsed f)" by auto
    from validate_date_True[OF v] v show "\<exists>t. validate_date d = Inr (True, [], Some t)" by auto
  qed
  from assms rs noerr obtain rr where rr: "mapM_exn ?chk (range_matches txt) = Inr rr"
      and e2: "map snd (filter (\<lambda>r. \<not> fst r) rr) = []"
    by (auto simp: extract_and_validate_dates_def Let_def fd_def split: if_splits sum.splits)
  note l = mapM_exn_results[OF rr]
  from range_results(2)[OF l] e2
  have all: "\<forall>x \<in> set (range_matches txt). \<exists>m. ?chk x = Inr (True, m)" by simp
  show "\<forall>(s, e) \<in> set (range_matches txt).
            validate_date_range ref s e ap 1 36500 = Inr (True, [])"
  proof (intro ballI, clarify)
    fix s e assume "(s, e) \<in> set (range_matches txt)"
    with all obtain m where m: "validate_date_range ref s e ap 1 36500 = Inr (True, m)"
      by fastforce
    with validate_date_range_True[OF m]
    show "validate_date_range ref s e ap 1 36500 = Inr (True, [])" by simp
  qed
qed

section \<open>Facts about the client\<close>

lemma validate_dates_in_text_cases:
  "(validate_dates_in_text E txt lg = Inr (True, None)
      \<and> (\<exists>found. extract_and_validate_dates (reference_date E) txt False = Inr (True, [], found)))
   \<or> (\<exists>err. validate_dates_in_text E txt lg
          = Inr (False, Some (if lg = Arabic then alert_ar_head @ err @ alert_ar_tail
                              else alert_en_head @ err @ alert_en_tail)))"
proof -
  obtain ok msg found where
    r: "extract_and_validate_dates (reference_date E) txt False = Inr (ok, msg, found)"
    and m: "ok \<longrightarrow> msg = []"
    using extract_total by blast
  show ?thesis
  proof (cases ok)
    case True
    with r m show ?thesis by (simp add: validate_dates_in_text_def)
  next
    case False
    with r have "validate_dates_in_text E txt lg
          = Inr (False, Some (if lg = Arabic then alert_ar_head @ msg @ alert_ar_tail
                              else alert_en_head @ msg @ alert_en_tail))"
      by (simp add: validate_dates_in_text_def)
    then show ?thesis by blast
  qed
qed

lemma startswith_warning: "looks_like_error (9888 # 65039 # s)"
  by (simp add: looks_like_error_def startswith_def warning_sign_def)

lemma alerts_look_like_errors:
  "looks_like_error (alert_ar_head @ x)" "looks_like_error (alert_en_head @ x)"
  "looks_like_error (gen_bad_dates_ar_head @ x)" "looks_like_error (gen_bad_dates_en_head @ x)"
  "looks_like_error (edit_bad_dates_ar_head @ x)" "looks_like_error (edit_bad_dates_en_head @ x)"
  by (simp_all add: alert_ar_head_def alert_en_head_def gen_bad_dates_ar_head_def
        gen_bad_dates_en_head_def edit_bad_dates_ar_head_def edit_bad_dates_en_head_def
        startswith_warning)

lemma arabic_failures_look_like_errors:
  "looks_like_error gen_failed_ar" "looks_like_error edit_failed_ar"
  by (simp_all add: looks_like_error_def gen_failed_ar_def edit_failed_ar_def error_token_ar_def)

lemma generate_contract_cases:
  "\<exists>c. generate_contract E user_input = Inr (Some c)
      \<and> (looks_like_error c \<or> c = gen_failed_en
          \<or> (\<exists>found. extract_and_validate_dates (reference_date E) c False = Inr (True, [], found)))"
proof -
  let ?lg = "detect_language E user_input"
  from validate_dates_in_text_cases[of E user_input ?lg]
  show ?thesis
  proof (elim disjE conjE exE)
    fix err
    assume "validate_dates_in_text E user_input ?lg
          = Inr (False, Some (if ?lg = Arabic then alert_ar_head @ err @ alert_ar_tail
                              else alert_en_head @ err @ alert_en_tail))"
    then show ?thesis
      by (auto simp: generate_contract_def Let_def alerts_look_like_errors)
  next
    fix found
    assume ok: "validate_dates_in_text E user_input ?lg = Inr (True, None)"
    show ?thesis
    proof (cases "completion E (GenerateReq user_input)")
      case None
      with ok show ?thesis
        by (auto simp: generate_contract_def Let_def arabic_failures_look_like_errors)
    next
      case (Some content)
      from validate_dates_in_text_cases[of E "strip content" ?lg]
      show ?thesis
      proof (elim disjE conjE exE)
        fix err
        assume "validate_dates_in_text E (strip content) ?lg
          = Inr (False, Some (if ?lg = Arabic then alert_ar_head @ err @ alert_ar_tail
                              else alert_en_head @ err @ alert_en_tail))"
        with ok Some show ?thesis
          by (auto simp: generate_contract_def Let_def alerts_look_like_errors)
      next
        fix found'
        assume "validate_dates_in_text E (strip content) ?lg = Inr (True, None)"
          "extract_and_validate_dates (reference_date E) (strip content) False = Inr (True, [], found')"
        with ok Some show ?thesis
          by (auto simp: generate_contract_def Let_def)
      qed
    qed
  qed
qed

lemma last_dropWhile_eq:
  "dropWhile P xs \<noteq> [] \<Longrightarrow> last (dropWhile P xs) = last xs"
proof -
  assume "dropWhile P xs \<noteq> []"
  then have "last (takeWhile P xs @ dropWhile P xs) = last (dropWhile P xs)"
    by (rule last_appendR)
  then show ?thesis by simp
qed

lemma strip_idem: "strip (strip s) = strip s"
proof -
  define u where "u = dropWhile is_space s"
  define v where "v = dropWhile is_space (rev u)"
  have t: "strip s = rev v" by (simp add: strip_def u_def v_def)
  have vv: "dropWhile is_space v = v" by (simp add: v_def)
  have "dropWhile is_space (rev v) = rev v"
  proof (cases "v = []")
    case True
    then show ?thesis by simp
  next
    case False
    then have "dropWhile is_space (rev u) \<noteq> []" unfolding v_def .
    then have "last (dropWhile is_space (rev u)) = last (rev u)" by (rule last_dropWhile_eq)
    then have l: "last v = hd u" by (simp add: last_rev v_def)
    from False have "u \<noteq> []" by (auto simp: v_def)
    then have "dropWhile is_space s \<noteq> []" unfolding u_def .
    then have "\<not> is_space (hd (dropWhile is_space s))" by (rule hd_dropWhile)
    with l have "\<not> is_space (hd (rev v))" by (simp add: hd_rev u_def)
    then show ?thesis by (simp add: dropWhile_eq_self_iff)
  qed
  then have "strip (rev v) = rev (dropWhile is_space v)" by (simp add: strip_def)
  then have "strip (rev v) = rev v" by (simp only: vv)
  then show ?thesis by (simp only: t)
qed

lemma edit_contract_cases:
  "\<exists>c. edit_contract E current user_request = Inr (Some c)
      \<and> (looks_like_error c \<or> c = edit_failed_en
          \<or> (strip c = c \<and> (\<exists>found. extract_and_validate_dates (reference_date E) c False = Inr (True, [], found))))"
proof -
  let ?lg = "detect_language E user_request"
  from validate_dates_in_text_cases[of E user_request ?lg]
  show ?thesis
  proof (elim disjE conjE exE)
    fix err
    assume "validate_dates_in_text E user_request ?lg
          = Inr (False, Some (if ?lg = Arabic then alert_ar_head @ err @ alert_ar_tail
                              else alert_en_head @ err @ alert_en_tail))"
    then show ?thesis
      by (auto simp: edit_contract_def Let_def alerts_look_like_errors)
  next
    fix found
    assume ok: "validate_dates_in_text E user_request ?lg = Inr (True, None)"
    show ?thesis
    proof (cases "completion E (EditReq current user_request ?lg)")
      case None
      with ok show ?thesis
        by (auto simp: edit_contract_def Let_def arabic_failures_look_like_errors)
    next
      case (Some content)
      from validate_dates_in_text_cases[of E "strip content" ?lg]
      show ?thesis
      proof (elim disjE conjE exE)
        fix err
        assume "validate_dates_in_text E (strip content) ?lg
          = Inr (False, Some (if ?lg = Arabic then alert_ar_head @ err @ alert_ar_tail
                              else alert_en_head @ err @ alert_en_tail))"
        with ok Some show ?thesis
          by (auto simp: edit_contract_def Let_def alerts_look_like_errors)
      next
        fix found'
        assume "validate_dates_in_text E (strip content) ?lg = Inr (True, None)"
          "extract_and_validate_dates (reference_date E) (strip content) False = Inr (True, [], found')"
        with ok Some show ?thesis
          by (auto simp: edit_contract_def Let_def strip_idem)
      qed
    qed
  qed
qed

lemma review_contract_total: "\<exists>r. review_contract E contract_text = Inr (Some r)"
proof -
  obtain ok msg found where
    "extract_and_validate_dates (reference_date E) contract_text True = Inr (ok, msg, found)"
    using extract_total by blast
  then show ?thesis
    by (auto simp: review_contract_def Let_def split: option.splits)
qed

lemma route_edit_result:
  assumes "route_edit E lg mem active user_input sid = Inr ((msg, contract, act), mem')"
  shows "(act = NoContract \<longrightarrow> contract = None \<and> mem' = mem \<and> active = None)
       \<and> (act = Unchanged \<longrightarrow> contract = active \<and> active \<noteq> None \<and> mem' = mem)
       \<and> (act = Updated \<longrightarrow> (\<exists>c. contract = Some c \<and> c \<noteq> [] \<and> \<not> looks_like_error c
              \<and> MIN_CONTRACT_LENGTH \<le> length (strip c) \<and> contract \<noteq> active
              \<and> edit_contract E (the active) user_input = Inr (Some c)
              \<and> mem' = mem(sid \<mapsto> c)))"
proof (cases "active = None")
  case True
  with assms show ?thesis by (auto simp: route_edit_def)
next
  case False
  obtain c where c: "edit_contract E (the active) user_input = Inr (Some c)"
    using edit_contract_cases by blast
  with False assms show ?thesis
    by (auto simp: route_edit_def truthy_def set_current_contract_def split: if_splits)
qed

lemma route_create_result:
  assumes "route_create E lg mem active user_input sid = Inr ((msg, contract, act), mem')"
  shows "(act = NoContract \<longrightarrow> contract = None \<and> mem' = mem)
       \<and> (act = Unchanged \<longrightarrow> contract = active \<and> active \<noteq> None \<and> mem' = mem)
       \<and> (act = Updated \<longrightarrow> (\<exists>c. contract = Some c \<and> c \<noteq> [] \<and> \<not> looks_like_error c
              \<and> generate_contract E user_input = Inr (Some c)
              \<and> mem' = mem(sid \<mapsto> c)))"
proof -
  obtain c where c: "generate_contract E user_input = Inr (Some c)"
    using generate_contract_cases by blast
  with assms show ?thesis
    by (auto simp: route_create_def truthy_def set_current_contract_def Let_def
          split: if_splits option.splits)
qed

lemma route_other_result:
  "route_explain E lg mem active user_input = Inr ((msg, contract, act), mem') \<Longrightarrow>
     act \<noteq> Updated \<and> (act = NoContract \<longrightarrow> contract = None \<and> mem' = mem)
       \<and> (act = Unchanged \<longrightarrow> contract = active \<and> active \<noteq> None \<and> mem' = mem)"
  "route_review E lg mem active = Inr ((msg, contract, act), mem') \<Longrightarrow>
     act \<noteq> Updated \<and> (act = NoContract \<longrightarrow> contract = None \<and> mem' = mem)
       \<and> (act = Unchanged \<longrightarrow> contract = active \<and> active \<noteq> None \<and> mem' = mem)"
  "route_chat E lg mem active user_input = Inr ((msg, contract, act), mem') \<Longrightarrow>
     act \<noteq> Updated \<and> (act = NoContract \<longrightarrow> contract = None \<and> mem' = mem)
       \<and> (act = Unchanged \<longrightarrow> contract = active \<and> active \<noteq> None \<and> mem' = mem)"
  by (auto simp: route_explain_def route_review_def route_chat_def Let_def
        split: if_splits option.splits sum.splits)

lemma router_dispatch:
  "get_chat_response E mem0 user_input cc sid = r \<Longrightarrow>
     r = route_create E (detect_language E user_input) (synced_memory mem0 cc sid)
           (active_contract_of mem0 cc sid) user_input sid
     \<or> r = route_edit E (detect_language E user_input) (synced_memory mem0 cc sid)
           (active_contract_of mem0 cc sid) user_input sid
     \<or> r = route_explain E (detect_language E user_input) (synced_memory mem0 cc sid)
           (active_contract_of mem0 cc sid) user_input
     \<or> r = route_review E (detect_language E user_input) (synced_memory mem0 cc sid)
           (active_contract_of mem0 cc sid)
     \<or> r = route_chat E (detect_language E user_input) (synced_memory mem0 cc sid)
           (active_contract_of mem0 cc sid) user_input"
  by (auto simp: get_chat_response_def Let_def)

lemma router_total: "\<exists>r. get_chat_response E mem0 user_input cc sid = Inr r"
proof -
  obtain c where c: "generate_contract E user_input = Inr (Some c)"
    using generate_contract_cases by blast
  obtain u where u: "edit_contract E (the (active_contract_of mem0 cc sid)) user_input = Inr (Some u)"
    using edit_contract_cases by blast
  obtain v where v: "review_contract E (the (active_contract_of mem0 cc sid)) = Inr (Some v)"
    using review_contract_total by blast
  have "\<exists>r. route_create E lg mem (active_contract_of mem0 cc sid) user_input sid = Inr r" for lg mem
    using c by (auto simp: route_create_def Let_def)
  moreover have "\<exists>r. route_edit E lg mem (active_contract_of mem0 cc sid) user_input sid = Inr r" for lg mem
    using u by (auto simp: route_edit_def)
  moreover have "\<exists>r. route_explain E lg mem (active_contract_of mem0 cc sid) user_input = Inr r" for lg mem
    by (auto simp: route_explain_def)
  moreover have "\<exists>r. route_review E lg mem (active_contract_of mem0 cc sid) = Inr r" for lg mem
    using v by (auto simp: route_review_def)
  moreover have "\<exists>r. route_chat E lg mem (active_contract_of mem0 cc sid) user_input = Inr r" for lg mem
    by (auto simp: route_chat_def Let_def split: option.splits)
  ultimately show ?thesis
    using router_dispatch[OF refl, of E mem0 user_input cc sid] by metis
qed

lemma gen_failed_en_no_dates:
  "date_matches gen_failed_en = []" "range_matches gen_failed_en = []"
  by code_simp+

lemma gen_failed_en_scan:
  "extract_and_validate_dates ref gen_failed_en False = Inr (True, [], [])"
  by (simp add: extract_and_validate_dates_def gen_failed_en_no_dates)

lemma edit_failed_en_short: "length (strip edit_failed_en) < MIN_CONTRACT_LENGTH"
proof -
  have "length edit_failed_en = 25" by (simp add: edit_failed_en_def ascii_def)
  with strip_length[of edit_failed_en] show ?thesis by (simp add: MIN_CONTRACT_LENGTH_def)
qed

lemma intent_names_differ:
  "ascii ''edit'' \<noteq> ascii ''create''"
  by (simp add: ascii_def)

lemma router_edit:
  assumes "classify_intent E user_input (active_contract_of mem0 cc sid \<noteq> None)
             (detect_language E user_input) = ascii ''edit''"
  shows "get_chat_response E mem0 user_input cc sid
           = route_edit E (detect_language E user_input) (synced_memory mem0 cc sid)
               (active_contract_of mem0 cc sid) user_input sid"
  using assms intent_names_differ by (simp add: get_chat_response_def Let_def)

section \<open>Runs on the concrete inputs\<close>

lemma bad_text_matches:
  "date_matches text_bad_date_and_range
     = [ascii ''30/02/2027'', ascii ''10/01/2027'', ascii ''05/01/2027'']"
  "range_matches text_bad_date_and_range
     = [(ascii ''10/01/2027'', ascii ''05/01/2027''), (ascii ''10/01/2027'', ascii ''05/01/2027'')]"
  by code_simp+

lemma bad_text_scan:
  "map_sum id (\<lambda>r. (fst r, fst (snd r)))
       (extract_and_validate_dates ref0 text_bad_date_and_range False)
     = Inr (False, bad_date_error)"
  by code_simp

lemma backward_range_check:
  "validate_date_range ref0 (ascii ''10/01/2027'') (ascii ''05/01/2027'') False 1 36500
     = Inr (False, backward_range_error)"
  by code_simp

lemma bad_text_message: "\<not> contains bad_date_error backward_range_error"
  by code_simp

lemma parse_examples:
  "parse_date (ascii ''01/01/2020'') = Inr (Some (date_of 2020 1 1))"
  "parse_date (ascii ''01/01/2021'') = Inr (Some (date_of 2021 1 1))"
  "parse_date (ascii ''10/01/2027'') = Inr (Some (date_of 2027 1 10))"
  "parse_date (ascii ''05/01/2027'') = Inr (Some (date_of 2027 1 5))"
  "parse_date (ascii ''05/01/2028'') = Inr (Some (date_of 2028 1 5))"
  by code_simp+

lemma past_range_check:
  "validate_date_range ref0 (ascii ''01/01/2020'') (ascii ''01/01/2021'') False 1 36500
     = Inr (False, ascii ''Start date 01/01/2020 is in the past. ''
              @ ascii ''Lease contracts should start on or after today (01/01/2026)'')"
  by code_simp

lemma create_fails_parts:
  "detect_language env_create_fails (ascii ''create a lease'') = English"
  "classify_intent env_create_fails (ascii ''create a lease'') False English = ascii ''create''"
  "generate_contract env_create_fails (ascii ''create a lease'') = Inr (Some gen_failed_en)"
  "looks_like_error gen_failed_en = False"
  by code_simp+

lemma no_backend_parts:
  "detect_language env_no_backend (ascii ''hello'') = English"
  "classify_intent env_no_backend (ascii ''hello'') True English = ascii ''chat''"
  "strip (ascii '' X'') = ascii ''X''"
  by code_simp+

lemma run_no_backend:
  "get_chat_response env_no_backend (memory_with (ascii '' X'')) (ascii ''hello'')
       (Some (ascii '' X'')) sid0
     = Inr ((Some chat_failed_en, Some (ascii ''X''), Unchanged), memory_with (ascii '' X''))"
proof -
  have s: "supplied (Some (ascii '' X''))"
    by (simp add: supplied_def truthy_def no_backend_parts(3)) (simp add: ascii_def)
  have c: "ascii ''chat'' \<noteq> ascii ''create''" "ascii ''chat'' \<noteq> ascii ''edit''"
    "ascii ''chat'' \<noteq> ascii ''explain''" "ascii ''chat'' \<noteq> ascii ''review''"
    by (simp_all add: ascii_def)
  have n: "completion env_no_backend r = None" for r by (simp add: env_no_backend_def)
  show ?thesis
    by (simp add: get_chat_response_def Let_def no_backend_parts s c n route_chat_def
          active_contract_of_def synced_memory_def set_current_contract_def memory_with_def)
qed

lemma create_echo_parts:
  "detect_language env_create_echo (ascii ''new'') = English"
  "classify_intent env_create_echo (ascii ''new'') True English = ascii ''create''"
  "generate_contract env_create_echo (ascii ''new'') = Inr (Some (ascii ''X''))"
  "looks_like_error (ascii ''X'') = False"
  by code_simp+

lemma run_create_echo:
  "get_chat_response env_create_echo (memory_with (ascii ''X'')) (ascii ''new'') None sid0
     = Inr ((Some created_en, Some (ascii ''X''), Updated), memory_with (ascii ''X''))"
proof -
  have "ascii ''X'' \<noteq> []" by (simp add: ascii_def)
  then show ?thesis
    by (simp add: get_chat_response_def Let_def create_echo_parts route_create_def
          active_contract_of_def synced_memory_def supplied_def truthy_def
          get_current_contract_def set_current_contract_def memory_with_def)
qed

lemma run_create_fails:
  "get_chat_response env_create_fails Map.empty (ascii ''create a lease'') None sid0
     = Inr ((Some created_en, Some gen_failed_en, Updated), memory_with gen_failed_en)"
proof -
  have "gen_failed_en \<noteq> []" by (simp add: gen_failed_en_def ascii_def)
  then show ?thesis
    by (simp add: get_chat_response_def Let_def create_fails_parts route_create_def
          active_contract_of_def synced_memory_def supplied_def truthy_def
          get_current_contract_def set_current_contract_def memory_with_def)
qed

lemma edit_fails_parts:
  "detect_language env_edit_fails (ascii ''shorten it'') = English"
  "classify_intent env_edit_fails (ascii ''shorten it'') True English = ascii ''edit''"
  "classify_intent env_edit_fails (ascii ''shorten it'') False English = ascii ''edit''"
  "edit_contract env_edit_fails (ascii ''X'') (ascii ''shorten it'') = Inr (Some edit_failed_en)"
  "length (strip edit_failed_en) < 200"
  by code_simp+

lemma backward_text_matches:
  "date_matches text_backward_until = [ascii ''10/01/2027'', ascii ''05/01/2027'']"
  "range_matches text_backward_until = []"
  by code_simp+

lemma backward_text_scan:
  "map_sum id (\<lambda>r. (fst r, fst (snd r), map f_text (snd (snd r))))
       (extract_and_validate_dates ref0 text_backward_until False)
     = Inr (True, [], [ascii ''10/01/2027'', ascii ''05/01/2027''])"
  by code_simp

lemma forward_text_matches:
  "date_matches text_forward_range = [ascii ''10/01/2027'', ascii ''05/01/2028'']"
  "range_matches text_forward_range
     = [(ascii ''10/01/2027'', ascii ''05/01/2028''), (ascii ''10/01/2027'', ascii ''05/01/2028'')]"
  by code_simp+

lemma create_backward_parts:
  "detect_language env_create_backward (ascii ''new lease'') = English"
  "classify_intent env_create_backward (ascii ''new lease'') False English = ascii ''create''"
  "generate_contract env_create_backward (ascii ''new lease'') = Inr (Some text_backward_until)"
  "looks_like_error text_backward_until = False"
  by code_simp+

lemma create_forward_parts:
  "detect_language env_create_forward (ascii ''new lease'') = English"
  "classify_intent env_create_forward (ascii ''new lease'') False English = ascii ''create''"
  "generate_contract env_create_forward (ascii ''new lease'') = Inr (Some text_forward_range)"
  "looks_like_error text_forward_range = False"
  by code_simp+

lemma run_create_backward:
  "get_chat_response env_create_backward Map.empty (ascii ''new lease'') None sid0
     = Inr ((Some created_en, Some text_backward_until, Updated), memory_with text_backward_until)"
proof -
  have "text_backward_until \<noteq> []" by (simp add: text_backward_until_def ascii_def)
  then show ?thesis
    by (simp add: get_chat_response_def Let_def create_backward_parts route_create_def
          active_contract_of_def synced_memory_def supplied_def truthy_def
          get_current_contract_def set_current_contract_def memory_with_def)
qed

lemma run_create_forward:
  "get_chat_response env_create_forward Map.empty (ascii ''new lease'') None sid0
     = Inr ((Some created_en, Some text_forward_range, Updated), memory_with text_forward_range)"
proof -
  have "text_forward_range \<noteq> []" by (simp add: text_forward_range_def ascii_def)
  then show ?thesis
    by (simp add: get_chat_response_def Let_def create_forward_parts route_create_def
          active_contract_of_def synced_memory_def supplied_def truthy_def
          get_current_contract_def set_current_contract_def memory_with_def)
qed

lemma backward_dates_order: "dt_less (date_of 2027 1 5) (date_of 2027 1 10)"
  by (simp add: dt_less_def dt_fields_def date_of_def)

section \<open>The claims\<close>

subsection \<open>C1: what an updated contract has passed\<close>

text \<open>
  Claim C1, as the code has it. Whatever the intent and whatever the backend returns,
  when the router answers with the action \<open>updated\<close>, the contract it returns is the one
  now stored for the session, and \<open>extract_and_validate_dates\<close> (past starts not allowed)
  reports it valid. This means: every date-like piece of the contract is a valid date,
  and every range phrase that the patterns of the scan find in it has a start that is not
  before the reference date and is before its end, and passes \<open>validate_date_range\<close>. It
  does not mean that the contract holds no backward range: the scan finds a range only
  in the wordings of its patterns.
\<close>

theorem updated_contract_passes_date_scan:
  assumes "get_chat_response E mem0 user_input cc sid = Inr ((msg, contract, Updated), mem')"
  shows "\<exists>c found. contract = Some c \<and> mem' sid = Some c
           \<and> extract_and_validate_dates (reference_date E) c False = Inr (True, [], found)
           \<and> (\<forall>d \<in> set (date_matches c). \<exists>t. validate_date d = Inr (True, [], Some t))
           \<and> (\<forall>(s, e) \<in> set (range_matches c). \<exists>a b.
                 parse_date s = Inr (Some a) \<and> parse_date e = Inr (Some b)
                 \<and> \<not> dt_less a (reference_date E) \<and> dt_less a b
                 \<and> validate_date_range (reference_date E) s e False 1 36500 = Inr (True, []))"
proof -
  let ?lg = "detect_language E user_input"
  let ?mem = "synced_memory mem0 cc sid"
  let ?act = "active_contract_of mem0 cc sid"
  have scanned: "\<exists>c found. contract = Some c \<and> mem' sid = Some c
           \<and> extract_and_validate_dates (reference_date E) c False = Inr (True, [], found)"
  proof -
    from router_dispatch[OF assms]
    consider (create) "route_create E ?lg ?mem ?act user_input sid = Inr ((msg, contract, Updated), mem')"
      | (edit) "route_edit E ?lg ?mem ?act user_input sid = Inr ((msg, contract, Updated), mem')"
      | (explain) "route_explain E ?lg ?mem ?act user_input = Inr ((msg, contract, Updated), mem')"
      | (review) "route_review E ?lg ?mem ?act = Inr ((msg, contract, Updated), mem')"
      | (chat) "route_chat E ?lg ?mem ?act user_input = Inr ((msg, contract, Updated), mem')"
      by metis
    then show ?thesis
    proof cases
      case create
      from route_create_result[OF create] obtain c where c: "contract = Some c"
          "\<not> looks_like_error c" "generate_contract E user_input = Inr (Some c)"
          "mem' = ?mem(sid \<mapsto> c)" by auto
      from generate_contract_cases[of E user_input] c(2,3)
      have "c = gen_failed_en
            \<or> (\<exists>found. extract_and_validate_dates (reference_date E) c False = Inr (True, [], found))"
        by auto
      then have "\<exists>found. extract_and_validate_dates (reference_date E) c False = Inr (True, [], found)"
        using gen_failed_en_scan by auto
      with c(1,4) show ?thesis by simp
    next
      case edit
      from route_edit_result[OF edit] obtain c where c: "contract = Some c"
          "\<not> looks_like_error c" "MIN_CONTRACT_LENGTH \<le> length (strip c)"
          "edit_contract E (the ?act) user_input = Inr (Some c)"
          "mem' = ?mem(sid \<mapsto> c)" by auto
      from c(3) edit_failed_en_short have "c \<noteq> edit_failed_en" by auto
      with edit_contract_cases[of E "the ?act" user_input] c(2,4)
      have "\<exists>found. extract_and_validate_dates (reference_date E) c False = Inr (True, [], found)"
        by auto
      with c(1,5) show ?thesis by simp
    next
      case explain
      with route_other_result(1) show ?thesis by blast
    next
      case review
      with route_other_result(2) show ?thesis by blast
    next
      case chat
      with route_other_result(3) show ?thesis by blast
    qed
  qed
  then obtain c found where c: "contract = Some c" "mem' sid = Some c"
      and sc: "extract_and_validate_dates (reference_date E) c False = Inr (True, [], found)"
    by blast
  note dates = scan_all_valid(1)[OF sc]
  have ranges: "\<forall>(s, e) \<in> set (range_matches c). \<exists>a b.
                 parse_date s = Inr (Some a) \<and> parse_date e = Inr (Some b)
                 \<and> \<not> dt_less a (reference_date E) \<and> dt_less a b
                 \<and> validate_date_range (reference_date E) s e False 1 36500 = Inr (True, [])"
  proof (intro ballI, clarify)
    fix s e assume "(s, e) \<in> set (range_matches c)"
    with scan_all_valid(2)[OF sc]
    have v: "validate_date_range (reference_date E) s e False 1 36500 = Inr (True, [])"
      by fastforce
    from validate_date_range_valid[OF v] v
    show "\<exists>a b. parse_date s = Inr (Some a) \<and> parse_date e = Inr (Some b)
                 \<and> \<not> dt_less a (reference_date E) \<and> dt_less a b
                 \<and> validate_date_range (reference_date E) s e False 1 36500 = Inr (True, [])"
      by auto
  qed
  show ?thesis
    apply (rule exI[of _ c])
    apply (rule exI[of _ found])
    using c sc dates ranges by simp
qed

text \<open>
  An instance: the generation returns a text with the range \<open>from 10/01/2027 to
  05/01/2028\<close>; the router answers \<open>updated\<close>, the text passes the scan, and its range is
  in order and valid.
\<close>

theorem updated_contract_passes_date_scan_witness:
  "(\<exists>found. extract_and_validate_dates ref0 text_forward_range False = Inr (True, [], found))
   \<and> (\<exists>t. validate_date (ascii ''05/01/2028'') = Inr (True, [], Some t))
   \<and> (\<exists>a b. parse_date (ascii ''10/01/2027'') = Inr (Some a)
          \<and> parse_date (ascii ''05/01/2028'') = Inr (Some b) \<and> dt_less a b)
   \<and> validate_date_range ref0 (ascii ''10/01/2027'') (ascii ''05/01/2028'') False 1 36500
       = Inr (True, [])"
  using updated_contract_passes_date_scan[OF run_create_forward]
  by (simp add: env_create_forward_def forward_text_matches) blast

text \<open>
  The claim as stated fails: its last clause says that a contract with a backward range
  is never stored or returned as updated. The generation returns \<open>Lease runs from
  10/01/2027 until 05/01/2027\<close>. Both dates parse, the end is before the start, and
  \<open>validate_date_range\<close> rejects the pair; but no range pattern has the word \<open>until\<close>, the
  scan finds no range phrase, and the router stores the text and answers \<open>updated\<close>.
\<close>

theorem backward_range_is_stored_as_updated:
  "get_chat_response env_create_backward Map.empty (ascii ''new lease'') None sid0
     = Inr ((Some created_en, Some text_backward_until, Updated),
            memory_with text_backward_until)
   \<and> text_backward_until
       = ascii ''Lease runs from '' @ ascii ''10/01/2027'' @ ascii '' until ''
           @ ascii ''05/01/2027''
   \<and> parse_date (ascii ''10/01/2027'') = Inr (Some (date_of 2027 1 10))
   \<and> parse_date (ascii ''05/01/2027'') = Inr (Some (date_of 2027 1 5))
   \<and> dt_less (date_of 2027 1 5) (date_of 2027 1 10)
   \<and> validate_date_range ref0 (ascii ''10/01/2027'') (ascii ''05/01/2027'') False 1 36500
       = Inr (False, backward_range_error)
   \<and> range_matches text_backward_until = []"
  using run_create_backward parse_examples(3,4) backward_dates_order backward_range_check
    backward_text_matches(2)
  by (simp add: text_backward_until_def ascii_def)

subsection \<open>C2: a failed completion must leave the contract alone\<close>

text \<open>
  Claim C2 says that when the completion call of an operation fails, the router returns
  an error message, never the action \<open>updated\<close>, and leaves the stored contract as it
  was. The code does not do so for the intent \<open>create\<close> on an English request: the
  fallback text \<open>Sorry, error generating contract.\<close> neither starts with the warning
  sign nor holds the Arabic word for error, so the router takes it for a contract,
  stores it, and answers \<open>Contract created successfully\<close> with the action \<open>updated\<close>.
\<close>

theorem english_generation_failure_is_stored:
  "get_chat_response env_create_fails Map.empty (ascii ''create a lease'') None sid0
     = Inr ((Some created_en, Some gen_failed_en, Updated), memory_with gen_failed_en)"
  by (rule run_create_fails)

subsection \<open>C3: the routing result and the action tag\<close>

text \<open>
  Claim C3, as the code has it. For every result of the router: with the action
  \<open>none\<close> the contract is absent; with \<open>unchanged\<close> the contract is present and is the
  active contract (the stored text, or the caller's text stripped of white space); with
  \<open>updated\<close> the contract is present, not empty, and is what is now stored, and when the
  intent was \<open>edit\<close> it differs from the active contract and from the stored text.
  Apart from the write of an update, the memory is the memory after the sync.
\<close>

theorem routing_result_invariant:
  assumes "get_chat_response E mem0 user_input cc sid = Inr ((msg, contract, act), mem')"
  shows "(act = NoContract \<longrightarrow> contract = None \<and> mem' = synced_memory mem0 cc sid)
       \<and> (act = Unchanged \<longrightarrow> contract = active_contract_of mem0 cc sid \<and> contract \<noteq> None
              \<and> mem' = synced_memory mem0 cc sid)
       \<and> (act = Updated \<longrightarrow> (\<exists>c. contract = Some c \<and> c \<noteq> []
              \<and> mem' = (synced_memory mem0 cc sid)(sid \<mapsto> c)
              \<and> (classify_intent E user_input (active_contract_of mem0 cc sid \<noteq> None)
                     (detect_language E user_input) = ascii ''edit''
                   \<longrightarrow> contract \<noteq> active_contract_of mem0 cc sid
                       \<and> contract \<noteq> synced_memory mem0 cc sid sid)))"
proof -
  let ?lg = "detect_language E user_input"
  let ?mem = "synced_memory mem0 cc sid"
  let ?act = "active_contract_of mem0 cc sid"
  have edit_differs: "contract \<noteq> ?mem sid"
    if e: "route_edit E ?lg ?mem ?act user_input sid = Inr ((msg, contract, Updated), mem')"
  proof -
    from route_edit_result[OF e] obtain c where c: "contract = Some c"
        "\<not> looks_like_error c" "MIN_CONTRACT_LENGTH \<le> length (strip c)" "contract \<noteq> ?act"
        "edit_contract E (the ?act) user_input = Inr (Some c)" by auto
    from c(3) edit_failed_en_short have "c \<noteq> edit_failed_en" by auto
    with edit_contract_cases[of E "the ?act" user_input] c(2,5) have s: "strip c = c" by auto
    show ?thesis
    proof (cases "supplied cc")
      case False
      then have "?act = ?mem sid"
        by (simp add: active_contract_of_def get_current_contract_def)
      with c(4) show ?thesis by simp
    next
      case True
      then obtain x where x: "cc = Some x" by (cases cc) (auto simp: supplied_def truthy_def)
      with True have m: "?mem sid = Some x" "?act = Some (strip x)"
        by (simp_all add: synced_memory_def active_contract_of_def set_current_contract_def)
      show ?thesis
      proof
        assume "contract = ?mem sid"
        with c(1) m(1) have "c = x" by simp
        with s have "strip x = c" by simp
        with c(1,4) m(2) show False by simp
      qed
    qed
  qed
  from router_dispatch[OF assms]
  consider (create) "route_create E ?lg ?mem ?act user_input sid = Inr ((msg, contract, act), mem')"
      "get_chat_response E mem0 user_input cc sid = route_create E ?lg ?mem ?act user_input sid"
    | (edit) "route_edit E ?lg ?mem ?act user_input sid = Inr ((msg, contract, act), mem')"
    | (explain) "route_explain E ?lg ?mem ?act user_input = Inr ((msg, contract, act), mem')"
    | (review) "route_review E ?lg ?mem ?act = Inr ((msg, contract, act), mem')"
    | (chat) "route_chat E ?lg ?mem ?act user_input = Inr ((msg, contract, act), mem')"
    using assms by metis
  then show ?thesis
  proof cases
    case create
    have ne: "classify_intent E user_input (?act \<noteq> None) ?lg = ascii ''edit''
                \<Longrightarrow> get_chat_response E mem0 user_input cc sid
                      = route_edit E ?lg ?mem ?act user_input sid"
      by (rule router_edit)
    show ?thesis
    proof (cases "classify_intent E user_input (?act \<noteq> None) ?lg = ascii ''edit''")
      case True
      with ne assms have e: "route_edit E ?lg ?mem ?act user_input sid = Inr ((msg, contract, act), mem')"
        by simp
      from route_edit_result[OF e] edit_differs e show ?thesis by auto
    next
      case False
      with route_create_result[OF create(1)] show ?thesis by auto
    qed
  next
    case edit
    from route_edit_result[OF edit] edit_differs edit show ?thesis by auto
  next
    case explain
    from route_other_result(1)[OF explain] show ?thesis by auto
  next
    case review
    from route_other_result(2)[OF review] show ?thesis by auto
  next
    case chat
    from route_other_result(3)[OF chat] show ?thesis by auto
  qed
qed

text \<open>
  Two instances: a chat turn with a supplied contract, and a create turn.
\<close>

theorem routing_result_invariant_witness:
  "active_contract_of (memory_with (ascii '' X'')) (Some (ascii '' X'')) sid0 = Some (ascii ''X'')
   \<and> synced_memory (memory_with (ascii '' X'')) (Some (ascii '' X'')) sid0
       = memory_with (ascii '' X'')
   \<and> (synced_memory (memory_with (ascii ''X'')) None sid0)(sid0 \<mapsto> ascii ''X'')
       = memory_with (ascii ''X'')"
proof -
  from routing_result_invariant[OF run_no_backend]
  have a: "Some (ascii ''X'') = active_contract_of (memory_with (ascii '' X'')) (Some (ascii '' X'')) sid0"
    and b: "memory_with (ascii '' X'')
              = synced_memory (memory_with (ascii '' X'')) (Some (ascii '' X'')) sid0"
    by simp_all
  from routing_result_invariant[OF run_create_echo]
  obtain c where c: "Some (ascii ''X'') = Some c"
      "memory_with (ascii ''X'') = (synced_memory (memory_with (ascii ''X'')) None sid0)(sid0 \<mapsto> c)"
    by auto
  from c have "(synced_memory (memory_with (ascii ''X'')) None sid0)(sid0 \<mapsto> ascii ''X'')
       = memory_with (ascii ''X'')" by simp
  with a b show ?thesis by simp
qed

text \<open>
  The claim as stated fails twice. A caller's contract \<open>" X"\<close> is stored as it came
  and returned stripped, so with \<open>unchanged\<close> the contract field is not the stored text,
  byte for byte; and a \<open>create\<close> whose generation returns the stored text again is
  \<open>updated\<close> with a contract equal to the one stored before.
\<close>

theorem result_contract_differs_from_artifact:
  "get_chat_response env_no_backend (memory_with (ascii '' X'')) (ascii ''hello'')
       (Some (ascii '' X'')) sid0
     = Inr ((Some chat_failed_en, Some (ascii ''X''), Unchanged), memory_with (ascii '' X''))
   \<and> memory_with (ascii '' X'') sid0 = Some (ascii '' X'')
   \<and> ascii ''X'' \<noteq> ascii '' X''
   \<and> get_chat_response env_create_echo (memory_with (ascii ''X'')) (ascii ''new'') None sid0
     = Inr ((Some created_en, Some (ascii ''X''), Updated), memory_with (ascii ''X''))
   \<and> memory_with (ascii ''X'') sid0 = Some (ascii ''X'')"
  using run_no_backend run_create_echo by (simp add: memory_with_def) (simp add: ascii_def)

subsection \<open>C4: the impossible day 30/02/2026\<close>

text \<open>
  Claim C4 expects for \<open>30/02/2026\<close> an error that names day 30 as invalid for month
  2 of 2026 and suggests the last day 28. \<open>parse_date\<close> returns no date for it (every
  format fails on the day, and so does the manual fallback), hence \<open>validate_date\<close>
  reports a format error and \<open>get_validation_suggestions\<close> only the format hint: the
  branches that would name the day and the last day of the month are never reached.
\<close>

theorem impossible_day_is_format_error:
  "validate_date (ascii ''30/02/2026'')
     = Inr (False, ascii ''Invalid date format: 30/02/2026'', None)
   \<and> get_validation_suggestions ref0 (ascii ''30/02/2026'')
     = Inr [ascii ''Use format DD/MM/YYYY (e.g., 23/02/2026)'']"
  by code_simp

subsection \<open>C5: what the scan reports\<close>

text \<open>
  Claim C5, as the code has it. The scan never raises. It validates every date-like
  piece of the text, and the findings are these pieces with their verdicts. When one of
  them is invalid the scan fails, and its message holds an entry for every invalid
  date; the range phrases are then not looked at. When all are valid, it checks every
  range phrase; it fails when one is invalid, with a message that holds the error of
  every invalid range, and succeeds exactly when all ranges are valid.
\<close>

theorem scan_reports_dates_then_ranges:
  "\<exists>ok msg found.
     extract_and_validate_dates ref txt allow_past = Inr (ok, msg, found)
     \<and> map f_text found = date_matches txt
     \<and> (\<forall>f \<in> set found. validate_date (f_text f) = Inr (f_valid f, f_error f, f_parsed f))
     \<and> (if \<exists>f \<in> set found. \<not> f_valid f
        then \<not> ok \<and> (\<forall>f \<in> set found. \<not> f_valid f \<longrightarrow> contains msg (date_error_entry f))
        else (\<forall>(s, e) \<in> set (range_matches txt). \<forall>err.
                validate_date_range ref s e allow_past 1 36500 = Inr (False, err)
                \<longrightarrow> \<not> ok \<and> contains msg err)
           \<and> (ok \<longleftrightarrow> (\<forall>(s, e) \<in> set (range_matches txt).
                  validate_date_range ref s e allow_past 1 36500 = Inr (True, []))))"
proof -
  let ?ds = "date_matches txt"
  let ?chk = "\<lambda>(s, e). validate_date_range ref s e allow_past 1 36500"
  have "\<exists>rs. mapM_exn validate_date ?ds = Inr rs"
  proof (rule mapM_exn_total)
    fix x assume "x \<in> set ?ds"
    then have "scannable x" by (rule date_matches_scannable)
    from validate_date_no_raise[OF this] show "\<exists>y. validate_date x = Inr y" by auto
  qed
  then obtain rs where rs: "mapM_exn validate_date ?ds = Inr rs" by blast
  define found where "found = map2 mk_finding ?ds rs"
  have f12: "map f_text found = ?ds
       \<and> (\<forall>f \<in> set found. validate_date (f_text f) = Inr (f_valid f, f_error f, f_parsed f))"
    unfolding found_def by (rule findings_of_results) (rule mapM_exn_results[OF rs])
  define errors where "errors = map date_error_entry (filter (\<lambda>f. \<not> f_valid f) found)"
  have e1: "errors \<noteq> [] \<longleftrightarrow> (\<exists>f \<in> set found. \<not> f_valid f)"
    by (simp add: errors_def filter_empty_conv)
  show ?thesis
  proof (cases "errors \<noteq> []")
    case True
    have r: "extract_and_validate_dates ref txt allow_past
               = Inr (False, join (ascii ''; '') errors, found)"
      using rs True by (simp add: extract_and_validate_dates_def Let_def found_def errors_def)
    have c: "\<forall>f \<in> set found. \<not> f_valid f \<longrightarrow> contains (join (ascii ''; '') errors) (date_error_entry f)"
    proof (intro ballI impI)
      fix f assume "f \<in> set found" "\<not> f_valid f"
      then have "date_error_entry f \<in> set errors" by (simp add: errors_def)
      then show "contains (join (ascii ''; '') errors) (date_error_entry f)" by (rule join_contains)
    qed
    from True e1 have inv: "\<exists>f \<in> set found. \<not> f_valid f" by simp
    show ?thesis
      apply (rule exI[of _ False])
      apply (rule exI[of _ "join (ascii ''; '') errors"])
      apply (rule exI[of _ found])
      using r f12 inv c by simp
  next
    case False
    have "\<exists>rr. mapM_exn ?chk (range_matches txt) = Inr rr"
    proof (rule mapM_exn_total)
      fix x assume x: "x \<in> set (range_matches txt)"
      obtain s e where se: "x = (s, e)" by (cases x)
      with x have "scannable s \<and> scannable e" using range_matches_scannable by blast
      then obtain v m where "validate_date_range ref s e allow_past 1 36500 = Inr (v, m)"
        using validate_date_range_no_raise[of s e ref allow_past 1 36500] by blast
      then show "\<exists>y. ?chk x = Inr y" using se by simp
    qed
    then obtain rr where rr: "mapM_exn ?chk (range_matches txt) = Inr rr" by blast
    define errors2 where "errors2 = map snd (filter (\<lambda>r. \<not> fst r) rr)"
    define ok where "ok \<longleftrightarrow> errors2 = []"
    define msg where "msg = (if errors2 \<noteq> [] then join (ascii ''; '') errors2 else [])"
    note l = mapM_exn_results[OF rr]
    have r: "extract_and_validate_dates ref txt allow_past = Inr (ok, msg, found)"
      using rs rr False
      by (simp add: extract_and_validate_dates_def Let_def found_def errors_def errors2_def
            ok_def msg_def)
    have a: "\<forall>(s, e) \<in> set (range_matches txt). \<forall>err.
                validate_date_range ref s e allow_past 1 36500 = Inr (False, err)
                \<longrightarrow> \<not> ok \<and> contains msg err"
    proof (intro ballI, clarify)
      fix s e err
      assume m: "(s, e) \<in> set (range_matches txt)"
        and v: "validate_date_range ref s e allow_past 1 36500 = Inr (False, err)"
      have "?chk (s, e) = Inr (False, err)" using v by simp
      from range_results(1)[OF l m this] have i: "err \<in> set errors2" by (simp add: errors2_def)
      then have "errors2 \<noteq> []" by auto
      moreover have "contains (join (ascii ''; '') errors2) err" using i by (rule join_contains)
      ultimately show "\<not> ok \<and> contains msg err" by (simp add: ok_def msg_def)
    qed
    have b: "ok \<longleftrightarrow> (\<forall>(s, e) \<in> set (range_matches txt).
                  validate_date_range ref s e allow_past 1 36500 = Inr (True, []))"
    proof
      assume ok
      then have all: "\<forall>x \<in> set (range_matches txt). \<exists>m. ?chk x = Inr (True, m)"
        using range_results(2)[OF l] by (simp add: ok_def errors2_def)
      show "\<forall>(s, e) \<in> set (range_matches txt).
                  validate_date_range ref s e allow_past 1 36500 = Inr (True, [])"
      proof (intro ballI, clarify)
        fix s e assume "(s, e) \<in> set (range_matches txt)"
        with all obtain m where m: "validate_date_range ref s e allow_past 1 36500 = Inr (True, m)"
          by fastforce
        with validate_date_range_True[OF m]
        show "validate_date_range ref s e allow_past 1 36500 = Inr (True, [])" by simp
      qed
    next
      assume h: "\<forall>(s, e) \<in> set (range_matches txt).
                  validate_date_range ref s e allow_past 1 36500 = Inr (True, [])"
      have "\<forall>x \<in> set (range_matches txt). \<exists>m. ?chk x = Inr (True, m)"
      proof
        fix x assume x: "x \<in> set (range_matches txt)"
        obtain s e where se: "x = (s, e)" by (cases x)
        with h x have "validate_date_range ref s e allow_past 1 36500 = Inr (True, [])" by fastforce
        with se show "\<exists>m. ?chk x = Inr (True, m)" by simp
      qed
      then show ok using range_results(2)[OF l] by (simp add: ok_def errors2_def)
    qed
    from False e1 have nv: "\<not> (\<exists>f \<in> set found. \<not> f_valid f)" by simp
    show ?thesis
      apply (rule exI[of _ ok])
      apply (rule exI[of _ msg])
      apply (rule exI[of _ found])
      using r f12 nv a b by simp
  qed
qed

text \<open>
  An instance: a text with three date-like pieces.
\<close>

theorem scan_reports_dates_then_ranges_witness:
  "\<exists>ok msg found.
     extract_and_validate_dates ref0 text_bad_date_and_range False = Inr (ok, msg, found)
     \<and> map f_text found = [ascii ''30/02/2027'', ascii ''10/01/2027'', ascii ''05/01/2027'']"
  using scan_reports_dates_then_ranges[of ref0 text_bad_date_and_range False]
  by (auto simp: bad_text_matches(1))

text \<open>
  The claim as stated fails: in a text with an impossible date and a backward range,
  the range phrase is found and its check fails, but the message of the scan holds only
  the entry of the date.
\<close>

theorem scan_stops_before_ranges:
  "range_matches text_bad_date_and_range
     = [(ascii ''10/01/2027'', ascii ''05/01/2027''), (ascii ''10/01/2027'', ascii ''05/01/2027'')]
   \<and> validate_date_range ref0 (ascii ''10/01/2027'') (ascii ''05/01/2027'') False 1 36500
     = Inr (False, backward_range_error)
   \<and> map_sum id (\<lambda>r. (fst r, fst (snd r)))
        (extract_and_validate_dates ref0 text_bad_date_and_range False)
     = Inr (False, bad_date_error)
   \<and> \<not> contains bad_date_error backward_range_error"
  using bad_text_matches(2) backward_range_check bad_text_scan bad_text_message by simp

subsection \<open>C6: the order of a range\<close>

text \<open>
  Claim C6, as the code has it. Let both texts parse to dates. If the start is before
  the end, the years are within 1900 to 2100, the start is not before the reference
  date, and the duration is at most 36500 days, then \<open>validate_date_range\<close> with the
  default parameters succeeds. If the end is not after the start, it fails whatever
  the flag and the bounds.
\<close>

theorem validate_date_range_ordering:
  assumes s: "parse_date start_str = Inr (Some a)" and e: "parse_date end_str = Inr (Some b)"
  shows "(1900 \<le> year a \<and> year b \<le> 2100 \<and> \<not> dt_less a ref \<and> dt_less a b
            \<and> timedelta_days b a \<le> 36500
          \<longrightarrow> validate_date_range ref start_str end_str False 1 36500 = Inr (True, []))
       \<and> (dt_le b a
          \<longrightarrow> (\<forall>allow_past mn mx. \<exists>msg.
                validate_date_range ref start_str end_str allow_past mn mx = Inr (False, msg)))"
proof (intro conjI impI allI)
  assume h: "1900 \<le> year a \<and> year b \<le> 2100 \<and> \<not> dt_less a ref \<and> dt_less a b
            \<and> timedelta_days b a \<le> 36500"
  have ma: "hour a = 0 \<and> minute a = 0 \<and> second a = 0 \<and> microsecond a = 0"
    and mb: "hour b = 0 \<and> minute b = 0 \<and> second b = 0 \<and> microsecond b = 0"
    using parse_date_valid(2)[OF s] parse_date_valid(2)[OF e] by simp_all
  from h have less: "ymd_less a b" using dt_less_midnight[OF ma mb] by simp
  then have yy: "year a \<le> year b" by (auto simp: ymd_less_def)
  have "toordinal a < toordinal b"
    using parse_date_valid(1)[OF s] parse_date_valid(1)[OF e] less by (rule toordinal_mono)
  then have d: "1 \<le> timedelta_days b a" using timedelta_days_midnight[OF ma mb] by simp
  have va: "validate_date start_str = Inr (True, [], Some a)"
    using s h yy by (simp add: validate_date_of_parse)
  have vb: "validate_date end_str = Inr (True, [], Some b)"
    using e h yy by (simp add: validate_date_of_parse)
  from h have "\<not> dt_le b a" using dt_less_not_le by blast
  with va vb h d show "validate_date_range ref start_str end_str False 1 36500 = Inr (True, [])"
    by (simp add: validate_date_range_def Let_def)
next
  fix allow_past mn mx
  assume le: "dt_le b a"
  show "\<exists>msg. validate_date_range ref start_str end_str allow_past mn mx = Inr (False, msg)"
  proof (cases "1900 \<le> year a \<and> year a \<le> 2100")
    case False
    with s show ?thesis by (auto simp: validate_date_range_def validate_date_of_parse)
  next
    case ya: True
    show ?thesis
    proof (cases "1900 \<le> year b \<and> year b \<le> 2100")
      case False
      with s e ya show ?thesis by (auto simp: validate_date_range_def validate_date_of_parse)
    next
      case True
      with s e ya le show ?thesis by (auto simp: validate_date_range_def validate_date_of_parse)
    qed
  qed
qed

text \<open>
  An instance of each half.
\<close>

theorem validate_date_range_ordering_witness:
  "validate_date_range ref0 (ascii ''10/01/2027'') (ascii ''05/01/2028'') False 1 36500
     = Inr (True, [])
   \<and> (\<exists>msg. validate_date_range ref0 (ascii ''10/01/2027'') (ascii ''05/01/2027'') True 5 10
         = Inr (False, msg))"
proof -
  have d: "timedelta_days (date_of 2028 1 5) (date_of 2027 1 10) = 360"
    by code_simp
  have a: "1900 \<le> year (date_of 2027 1 10) \<and> year (date_of 2028 1 5) \<le> 2100
      \<and> \<not> dt_less (date_of 2027 1 10) ref0 \<and> dt_less (date_of 2027 1 10) (date_of 2028 1 5)
      \<and> timedelta_days (date_of 2028 1 5) (date_of 2027 1 10) \<le> 36500"
    by (simp add: d) (simp add: dt_less_def dt_fields_def date_of_def ref0_def)
  have b: "dt_le (date_of 2027 1 5) (date_of 2027 1 10)"
    by (simp add: dt_le_def dt_less_def dt_fields_def date_of_def)
  from validate_date_range_ordering[OF parse_examples(3) parse_examples(5), of ref0] a
    validate_date_range_ordering[OF parse_examples(3) parse_examples(4), of ref0] b
  show ?thesis by blast
qed

text \<open>
  The claim as stated fails: both dates are valid and in order, and the range is
  refused with the default parameters, because the start is before the reference date.
\<close>

theorem past_start_fails_with_defaults:
  "parse_date (ascii ''01/01/2020'') = Inr (Some (date_of 2020 1 1))
   \<and> parse_date (ascii ''01/01/2021'') = Inr (Some (date_of 2021 1 1))
   \<and> dt_less (date_of 2020 1 1) (date_of 2021 1 1)
   \<and> validate_date_range ref0 (ascii ''01/01/2020'') (ascii ''01/01/2021'') False 1 36500
     = Inr (False, ascii ''Start date 01/01/2020 is in the past. ''
              @ ascii ''Lease contracts should start on or after today (01/01/2026)'')"
proof -
  have "dt_less (date_of 2020 1 1) (date_of 2021 1 1)"
    by (simp add: dt_less_def dt_fields_def date_of_def)
  then show ?thesis using parse_examples(1,2) past_range_check by simp
qed

subsection \<open>C7: an edit that changes nothing\<close>

text \<open>
  Claim C7. When the intent is \<open>edit\<close>, a contract is active, and the text that
  \<open>edit_contract\<close> returns equals the active contract or has fewer than 200 characters
  after stripping, the router answers \<open>unchanged\<close> with the active contract as the
  contract, and writes nothing.
\<close>

theorem noop_edit_is_unchanged:
  assumes intent: "classify_intent E user_input True (detect_language E user_input) = ascii ''edit''"
    and active: "active_contract_of mem0 cc sid = Some a"
    and out: "edit_contract E a user_input = Inr (Some u)"
    and noop: "u = a \<or> length (strip u) < 200"
  shows "\<exists>msg. get_chat_response E mem0 user_input cc sid
                 = Inr ((msg, Some a, Unchanged), synced_memory mem0 cc sid)"
proof -
  have "get_chat_response E mem0 user_input cc sid
          = route_edit E (detect_language E user_input) (synced_memory mem0 cc sid)
              (Some a) user_input sid"
    using router_edit[of E user_input mem0 cc sid] intent active by simp
  moreover have "\<exists>msg. route_edit E lg mem (Some a) user_input sid
                    = Inr ((msg, Some a, Unchanged), mem)" for lg mem
    using out noop by (auto simp: route_edit_def MIN_CONTRACT_LENGTH_def)
  ultimately show ?thesis by simp
qed

text \<open>
  An instance: the completion of the edit fails, and its fallback text is short.
\<close>

theorem noop_edit_is_unchanged_witness:
  "\<exists>msg. get_chat_response env_edit_fails (memory_with (ascii ''X'')) (ascii ''shorten it'') None sid0
           = Inr ((msg, Some (ascii ''X''), Unchanged), memory_with (ascii ''X''))"
proof -
  have a: "active_contract_of (memory_with (ascii ''X'')) None sid0 = Some (ascii ''X'')"
    and m: "synced_memory (memory_with (ascii ''X'')) None sid0 = memory_with (ascii ''X'')"
    by (simp_all add: active_contract_of_def synced_memory_def supplied_def truthy_def
          get_current_contract_def memory_with_def)
  have i: "classify_intent env_edit_fails (ascii ''shorten it'') True
             (detect_language env_edit_fails (ascii ''shorten it'')) = ascii ''edit''"
    by (simp add: edit_fails_parts)
  have n: "edit_failed_en = ascii ''X'' \<or> length (strip edit_failed_en) < 200"
    by (simp add: edit_fails_parts(5))
  from noop_edit_is_unchanged[OF i a edit_fails_parts(4) n] show ?thesis by (simp only: m)
qed

subsection \<open>C8: an edit without a contract\<close>

text \<open>
  Claim C8. When the intent is \<open>edit\<close> and there is no active contract (none
  supplied, none stored), the router returns the guidance message, no contract and the
  action \<open>none\<close>, leaves the memory as it is, and does not call the edit: whatever the
  backend would answer to an edit request, the result is the same.
\<close>

theorem edit_without_contract_is_refused:
  assumes intent: "classify_intent E user_input False (detect_language E user_input) = ascii ''edit''"
    and none: "\<not> supplied cc" "mem0 sid = None"
  shows "get_chat_response E mem0 user_input cc sid
           = Inr ((Some (if detect_language E user_input = Arabic then need_contract_edit_ar
                         else need_contract_edit_en), None, NoContract), mem0)
       \<and> (\<forall>answer. get_chat_response
               (E\<lparr>completion := (\<lambda>r. case r of EditReq c u l \<Rightarrow> answer c u l
                                         | _ \<Rightarrow> completion E r)\<rparr>) mem0 user_input cc sid
             = get_chat_response E mem0 user_input cc sid)"
proof -
  have a: "active_contract_of mem0 cc sid = None" "synced_memory mem0 cc sid = mem0"
    using none by (simp_all add: active_contract_of_def synced_memory_def get_current_contract_def)
  have r: "get_chat_response E' mem0 user_input cc sid
           = Inr ((Some (if detect_language E' user_input = Arabic then need_contract_edit_ar
                         else need_contract_edit_en), None, NoContract), mem0)"
    if "classify_intent E' user_input False (detect_language E' user_input) = ascii ''edit''" for E'
    using router_edit[of E' user_input mem0 cc sid] that a by (simp add: route_edit_def)
  show ?thesis
  proof (intro conjI allI)
    show "get_chat_response E mem0 user_input cc sid
           = Inr ((Some (if detect_language E user_input = Arabic then need_contract_edit_ar
                         else need_contract_edit_en), None, NoContract), mem0)"
      using r[OF intent] .
  next
    fix answer
    let ?E = "E\<lparr>completion := (\<lambda>r. case r of EditReq c u l \<Rightarrow> answer c u l
                                         | _ \<Rightarrow> completion E r)\<rparr>"
    have d: "detect_language ?E user_input = detect_language E user_input"
      by (simp add: detect_language_def)
    have "classify_intent ?E user_input False (detect_language E user_input)
            = classify_intent E user_input False (detect_language E user_input)"
      by (simp add: classify_intent_def split: option.splits)
    with intent have "classify_intent ?E user_input False (detect_language ?E user_input) = ascii ''edit''"
      by (simp only: d)
    from r[OF this] r[OF intent] d
    show "get_chat_response ?E mem0 user_input cc sid = get_chat_response E mem0 user_input cc sid"
      by simp
  qed
qed

text \<open>
  An instance, in English.
\<close>

theorem edit_without_contract_is_refused_witness:
  "get_chat_response env_edit_fails Map.empty (ascii ''shorten it'') None sid0
     = Inr ((Some need_contract_edit_en, None, NoContract), Map.empty)"
proof -
  have i: "classify_intent env_edit_fails (ascii ''shorten it'') False
             (detect_language env_edit_fails (ascii ''shorten it'')) = ascii ''edit''"
    by (simp add: edit_fails_parts)
  have s: "\<not> supplied None" by (simp add: supplied_def truthy_def)
  from edit_without_contract_is_refused[OF i s, of Map.empty sid0] show ?thesis
    by (simp add: edit_fails_parts(1))
qed

subsection \<open>C9: 29 February\<close>

lemma monthrange_days_feb: "monthrange_days y 2 = Inr (if isleap y then 29 else 28)"
  by (simp add: monthrange_days_def mdays_def)

text \<open>
  Claim C9, as the code has it. \<open>is_valid_date(29, 2, y)\<close> is true exactly for the leap
  years among the years 1 to 9999 that a \<open>datetime\<close> can hold: after the check against
  \<open>monthrange\<close> the date is constructed, and the \<open>ValueError\<close> of a year outside 1..9999
  is answered with \<open>False\<close>.
\<close>

theorem is_valid_date_feb29:
  "is_valid_date 29 2 y \<longleftrightarrow>
     1 \<le> y \<and> y \<le> 9999 \<and> y mod 4 = 0 \<and> (y mod 100 \<noteq> 0 \<or> y mod 400 = 0)"
  by (auto simp: is_valid_date_def monthrange_days_feb datetime_new_def isleap_def
        fits_c_int_def)

theorem is_valid_date_feb29_witness:
  "is_valid_date 29 2 2024 \<and> \<not> is_valid_date 29 2 2023 \<and> \<not> is_valid_date 29 2 1900
     \<and> is_valid_date 29 2 2000"
  using is_valid_date_feb29 [of 2024] is_valid_date_feb29 [of 2023]
    is_valid_date_feb29 [of 1900] is_valid_date_feb29 [of 2000]
  by simp

text \<open>
  Year 10000 is divisible by 400, and 29 February 10000 is refused: the leap-year rule
  alone does not decide \<open>is_valid_date\<close> for every integer year.
\<close>

theorem is_valid_date_feb29_year_10000:
  "\<not> (is_valid_date 29 2 10000 \<longleftrightarrow>
        (10000::int) mod 4 = 0 \<and> ((10000::int) mod 100 \<noteq> 0 \<or> (10000::int) mod 400 = 0))"
  by (simp add: is_valid_date_def monthrange_days_feb datetime_new_def isleap_def
        fits_c_int_def)

subsection \<open>C10: what \<open>parse_date\<close> returns\<close>

text \<open>
  Claim C10 says that \<open>parse_date\<close> returns, for every text, either no date or a date
  of the calendar. Whenever it returns, that is so (\<open>parse_date_valid\<close>), and
  \<open>validate_date\<close> never reaches its branch for a date that does not exist
  (\<open>validate_date_of_parse\<close>). But \<open>parse_date\<close> does not always return: in the manual
  fallback a component beyond the range of a C \<open>int\<close> makes the constructor of the date
  raise \<open>OverflowError\<close>, which only \<open>is_valid_date\<close> catches.
\<close>

theorem huge_day_raises:
  "parse_date (ascii ''99999999999/1/2026'') = Inl OverflowError
   \<and> validate_date (ascii ''99999999999/1/2026'') = Inl OverflowError"
  by code_simp


end
